theory Spec2Isabelle
  imports Main
begin

section \<open>Bytes, text and the interpreter primitives used by beheader.py\<close>

text \<open>
  A Python \<open>bytes\<close> or \<open>bytearray\<close> value is a list of 8-bit characters; a Python
  \<open>str\<close> is a list of Unicode code points. Lengths and slice bounds are natural numbers
  (every bound the program computes is a sum of lengths and non-negative constants); the
  result of a search is an integer, \<open>-1\<close> meaning "not found".
\<close>

type_synonym bytes = "char list"
type_synonym pystr = "nat list"

datatype error =
    OverflowError
  | IndexError
  | ValueError
  | UnicodeEncodeError
  | UnicodeDecodeError
  | XrefNotFound \<comment> \<open>\<open>Exception("Failed to find xref table")\<close>, line 178\<close>

definition NL :: char where
  "NL = CHR 0x0A"

definition NUL :: char where
  "NUL = CHR 0x00"

text \<open>\<open>data[a:b]\<close> for non-negative bounds: both bounds are clamped to the length.\<close>

definition get_slice :: "'a list \<Rightarrow> nat \<Rightarrow> nat \<Rightarrow> 'a list" where
  "get_slice xs a b = drop a (take b xs)"

text \<open>
  \<open>buf[a:b] = v\<close> on a bytearray, non-negative bounds: the bounds are clamped to the
  length, an upper bound below the lower one is raised to it, and the slice is replaced by
  \<open>v\<close> whatever the length of \<open>v\<close>: the buffer grows or shrinks when the lengths differ.
\<close>

definition set_slice :: "'a list \<Rightarrow> nat \<Rightarrow> nat \<Rightarrow> 'a list \<Rightarrow> 'a list" where
  "set_slice buf a b v =
     (let lo = min a (length buf); hi = max lo (min b (length buf))
      in take lo buf @ v @ drop hi buf)"

text \<open>\<open>buf[i] = c\<close> on a bytearray raises IndexError outside the buffer.\<close>

definition set_byte :: "bytes \<Rightarrow> nat \<Rightarrow> char \<Rightarrow> error + bytes" where
  "set_byte buf i c = (if i < length buf then Inr (buf[i := c]) else Inl IndexError)"

text \<open>\<open>int(num).to_bytes(4, ...)\<close> raises OverflowError from \<open>2^32\<close> on.\<close>

definition number_to_4b_le :: "nat \<Rightarrow> error + bytes" where
  "number_to_4b_le num =
     (if num < 2 ^ 32
      then Inr [char_of num, char_of (num div 2 ^ 8), char_of (num div 2 ^ 16), char_of (num div 2 ^ 24)]
      else Inl OverflowError)"

definition number_to_4b_be :: "nat \<Rightarrow> error + bytes" where
  "number_to_4b_be num =
     (if num < 2 ^ 32
      then Inr [char_of (num div 2 ^ 24), char_of (num div 2 ^ 16), char_of (num div 2 ^ 8), char_of num]
      else Inl OverflowError)"

text \<open>\<open>int.from_bytes(bs, "big")\<close> and its little-endian counterpart, on any number of bytes.\<close>

definition from_bytes_be :: "bytes \<Rightarrow> nat" where
  "from_bytes_be bs = foldl (\<lambda>acc c. acc * 256 + of_char c) 0 bs"

definition from_bytes_le :: "bytes \<Rightarrow> nat" where
  "from_bytes_le bs = foldr (\<lambda>c acc. of_char c + 256 * acc) bs 0"

text \<open>
  \<open>str.encode("utf-8")\<close>: one to four bytes per code point; a surrogate cannot be encoded
  (UnicodeEncodeError), and a \<open>str\<close> holds no value from \<open>0x110000\<close> on.
\<close>

definition utf8_char :: "nat \<Rightarrow> error + bytes" where
  "utf8_char c =
     (if c < 0x80 then Inr [char_of c]
      else if c < 0x800 then Inr [char_of (0xC0 + c div 0x40), char_of (0x80 + c mod 0x40)]
      else if 0xD800 \<le> c \<and> c < 0xE000 then Inl UnicodeEncodeError
      else if c < 0x10000 then
        Inr [char_of (0xE0 + c div 0x1000), char_of (0x80 + c div 0x40 mod 0x40),
             char_of (0x80 + c mod 0x40)]
      else if c < 0x110000 then
        Inr [char_of (0xF0 + c div 0x40000), char_of (0x80 + c div 0x1000 mod 0x40),
             char_of (0x80 + c div 0x40 mod 0x40), char_of (0x80 + c mod 0x40)]
      else Inl UnicodeEncodeError)"

fun encode_utf8 :: "pystr \<Rightarrow> error + bytes" where
  "encode_utf8 [] = Inr []"
| "encode_utf8 (c # cs) =
     (case utf8_char c of
        Inl e \<Rightarrow> Inl e
      | Inr b \<Rightarrow> (case encode_utf8 cs of Inl e \<Rightarrow> Inl e | Inr bs \<Rightarrow> Inr (b @ bs)))"

text \<open>A \<open>str\<close> literal of the source, written with ASCII characters only.\<close>

definition literal :: "string \<Rightarrow> pystr" where
  "literal s = map of_char s"

section \<open>build_skip_atom (lines 45-50)\<close>

text \<open>
  \<open>png_bytes\<close> is the content of the converted image file; \<open>html_string\<close> is the text
  handed over by \<open>main\<close> (empty when no hypertext option is given).
\<close>

definition build_skip_atom :: "bytes \<Rightarrow> pystr \<Rightarrow> error + bytes" where
  "build_skip_atom png_bytes html_string =
     (case (if html_string \<noteq> [] then encode_utf8 html_string else Inr []) of
        Inl e \<Rightarrow> Inl e
      | Inr html_bytes \<Rightarrow>
          (let skip_data = html_bytes @ png_bytes
           in case number_to_4b_be (length skip_data + 8) of
                Inl e \<Rightarrow> Inl e
              | Inr size_field \<Rightarrow> Inr ((size_field @ ''skip'') @ skip_data)))"

section \<open>Decimal text: str, int, strip, split, find\<close>

text \<open>\<open>str(n)\<close> for an integer: decimal digits, with a minus sign below zero.\<close>

definition digit_char :: "nat \<Rightarrow> char" where
  "digit_char d = char_of (48 + d)"

fun digits :: "nat \<Rightarrow> string" where
  "digits n = (if n < 10 then [digit_char n] else digits (n div 10) @ [digit_char (n mod 10)])"

declare digits.simps [simp del]

definition py_str :: "int \<Rightarrow> string" where
  "py_str i = (if i < 0 then CHR ''-'' # digits (nat (- i)) else digits (nat i))"

text \<open>pad_left (lines 31-33), with the default pad character \<open>"0"\<close> of its only caller.\<close>

definition pad_left :: "int \<Rightarrow> nat \<Rightarrow> string" where
  "pad_left s target_len =
     (let s = py_str s in replicate (target_len - length s) (CHR ''0'') @ s)"

text \<open>
  \<open>str(n)\<close> raises ValueError for a number of more than 4300 decimal digits (the sign is
  not counted; 4300 is the default limit of CPython 3.11). The numbers rendered by \<open>py_str\<close> above are buffer lengths and sums of a
  ten-character field and a buffer length, which stay far below that size; the limit is
  modelled where the program renders a number of unbounded size, at line 189.
\<close>

definition py_str_limited :: "int \<Rightarrow> error + string" where
  "py_str_limited i =
     (if 4300 < length (digits (nat \<bar>i\<bar>)) then Inl ValueError else Inr (py_str i))"

text \<open>
  \<open>bytes.decode("utf-8")\<close>, strict: one to four bytes per code point, no overlong form,
  no surrogate, nothing above \<open>0x10FFFF\<close>; any other byte sequence raises
  UnicodeDecodeError.
\<close>

definition is_cont :: "nat \<Rightarrow> bool" where
  "is_cont b \<longleftrightarrow> 0x80 \<le> b \<and> b \<le> 0xBF"

fun decode_points :: "nat list \<Rightarrow> pystr option" where
  "decode_points [] = Some []"
| "decode_points (b # bs) =
     (if b < 0x80 then map_option ((#) b) (decode_points bs)
      else if 0xC2 \<le> b \<and> b \<le> 0xDF then
        (case bs of
           c1 # rest \<Rightarrow>
             if is_cont c1
             then map_option ((#) ((b - 0xC0) * 0x40 + (c1 - 0x80))) (decode_points rest)
             else None
         | _ \<Rightarrow> None)
      else if 0xE0 \<le> b \<and> b \<le> 0xEF then
        (case bs of
           c1 # c2 # rest \<Rightarrow>
             if (if b = 0xE0 then 0xA0 else 0x80) \<le> c1 \<and> c1 \<le> (if b = 0xED then 0x9F else 0xBF)
                \<and> is_cont c2
             then map_option ((#) ((b - 0xE0) * 0x1000 + (c1 - 0x80) * 0x40 + (c2 - 0x80)))
                    (decode_points rest)
             else None
         | _ \<Rightarrow> None)
      else if 0xF0 \<le> b \<and> b \<le> 0xF4 then
        (case bs of
           c1 # c2 # c3 # rest \<Rightarrow>
             if (if b = 0xF0 then 0x90 else 0x80) \<le> c1 \<and> c1 \<le> (if b = 0xF4 then 0x8F else 0xBF)
                \<and> is_cont c2 \<and> is_cont c3
             then map_option ((#) ((b - 0xF0) * 0x40000 + (c1 - 0x80) * 0x1000 + (c2 - 0x80) * 0x40
                                     + (c3 - 0x80)))
                    (decode_points rest)
             else None
         | _ \<Rightarrow> None)
      else None)"

definition decode_utf8 :: "bytes \<Rightarrow> error + pystr" where
  "decode_utf8 bs =
     (case decode_points (map of_char bs) of None \<Rightarrow> Inl UnicodeDecodeError | Some s \<Rightarrow> Inr s)"

text \<open>
  \<open>str.strip()\<close> removes the white-space characters of Unicode from both ends; these are
  the code points for which \<open>str.isspace\<close> holds (CPython 3.11, Unicode 14).
\<close>

definition py_isspace :: "nat \<Rightarrow> bool" where
  "py_isspace c =
     (let n = int c
      in (9 \<le> n \<and> n \<le> 13) \<or> (28 \<le> n \<and> n \<le> 32) \<or> n = 0x85 \<or> n = 0xA0 \<or> n = 0x1680
         \<or> (0x2000 \<le> n \<and> n \<le> 0x200A) \<or> n = 0x2028 \<or> n = 0x2029 \<or> n = 0x202F
         \<or> n = 0x205F \<or> n = 0x3000)"

definition py_strip :: "pystr \<Rightarrow> pystr" where
  "py_strip s = rev (dropWhile py_isspace (rev (dropWhile py_isspace s)))"

text \<open>
  \<open>int(s)\<close> for a \<open>str\<close>, as the interpreter computes it. A string that is not pure
  ASCII is first rewritten: a white-space character becomes a blank, a decimal digit of any
  script its ASCII digit, and the first other character from 127 on becomes \<open>?\<close> and ends
  the string. \<open>decimal_zeros\<close> lists the digit zero of every script of Unicode 14; the
  nine code points after each are its digits one to nine.
\<close>

definition decimal_zeros :: "int list" where
  "decimal_zeros =
     [0x30, 0x660, 0x6F0, 0x7C0, 0x966, 0x9E6, 0xA66, 0xAE6, 0xB66, 0xBE6, 0xC66, 0xCE6, 0xD66,
      0xDE6, 0xE50, 0xED0, 0xF20, 0x1040, 0x1090, 0x17E0, 0x1810, 0x1946, 0x19D0, 0x1A80, 0x1A90,
      0x1B50, 0x1BB0, 0x1C40, 0x1C50, 0xA620, 0xA8D0, 0xA900, 0xA9D0, 0xA9F0, 0xAA50, 0xABF0,
      0xFF10, 0x104A0, 0x10D30, 0x11066, 0x110F0, 0x11136, 0x111D0, 0x112F0, 0x11450, 0x114D0,
      0x11650, 0x116C0, 0x11730, 0x118E0, 0x11950, 0x11C50, 0x11D50, 0x11DA0, 0x16A60, 0x16AC0,
      0x16B50, 0x1D7CE, 0x1D7D8, 0x1D7E2, 0x1D7EC, 0x1D7F6, 0x1E140, 0x1E2F0, 0x1E950, 0x1FBF0]"

definition to_decimal :: "nat \<Rightarrow> nat option" where
  "to_decimal c =
     map_option (\<lambda>z. nat (int c - z)) (find (\<lambda>z. z \<le> int c \<and> int c < z + 10) decimal_zeros)"

fun ascii_form :: "pystr \<Rightarrow> string" where
  "ascii_form [] = []"
| "ascii_form (c # cs) =
     (if c < 127 then char_of c # ascii_form cs
      else if py_isspace c then CHR '' '' # ascii_form cs
      else (case to_decimal c of
              None \<Rightarrow> ''?''
            | Some d \<Rightarrow> digit_char d # ascii_form cs))"

text \<open>
  The ASCII text is then read as a decimal number: leading blanks (tab, newline, vertical
  tab, form feed, carriage return, space), an optional sign, decimal digits with single
  underscores between them, trailing blanks, and nothing else. A text without a digit, an
  underscore that does not stand between two digits, or more than 4300 digits is a
  ValueError. \<open>scan_digits\<close> follows the digits and underscores, remembering the previous
  character, and returns the text left over, the number of digits and their value.
\<close>

definition c_isspace :: "char \<Rightarrow> bool" where
  "c_isspace c = (let n = (of_char c :: nat) in (9 \<le> n \<and> n \<le> 13) \<or> n = 32)"

definition is_digit :: "char \<Rightarrow> bool" where
  "is_digit c = (let n = (of_char c :: nat) in 48 \<le> n \<and> n \<le> 57)"

definition digit_val :: "char \<Rightarrow> int" where
  "digit_val c = int (of_char c) - 48"

fun scan_digits :: "string \<Rightarrow> char \<Rightarrow> nat \<Rightarrow> int \<Rightarrow> (string \<times> nat \<times> int) option" where
  "scan_digits [] prev n acc = (if prev = CHR ''_'' then None else Some ([], n, acc))"
| "scan_digits (c # cs) prev n acc =
     (if is_digit c then scan_digits cs c (n + 1) (10 * acc + digit_val c)
      else if c = CHR ''_'' then (if prev = CHR ''_'' then None else scan_digits cs c n acc)
      else if prev = CHR ''_'' then None
      else Some (c # cs, n, acc))"

definition long_from_string :: "string \<Rightarrow> int option" where
  "long_from_string t =
     (let t1 = dropWhile c_isspace t;
          neg = (take 1 t1 = ''-'');
          t2 = (if take 1 t1 = ''+'' \<or> take 1 t1 = ''-'' then drop 1 t1 else t1)
      in if take 1 t2 = ''_'' then None
         else (case scan_digits t2 (CHR 0x00) 0 0 of
                 None \<Rightarrow> None
               | Some (rest, n, v) \<Rightarrow>
                   if length rest = length t2 \<or> 4300 < n \<or> dropWhile c_isspace rest \<noteq> [] then None
                   else Some (if neg then - v else v)))"

definition int_of_str :: "pystr \<Rightarrow> error + int" where
  "int_of_str s =
     (case long_from_string (if list_all (\<lambda>c. c < 128) s then map char_of s else ascii_form s) of
        None \<Rightarrow> Inl ValueError
      | Some v \<Rightarrow> Inr v)"

text \<open>
  \<open>int(field.decode("utf-8").strip())\<close>, the reading of a numeric field at lines 183 and
  188.
\<close>

definition py_int :: "bytes \<Rightarrow> error + int" where
  "py_int field =
     (case decode_utf8 field of Inl e \<Rightarrow> Inl e | Inr s \<Rightarrow> int_of_str (py_strip s))"

text \<open>\<open>s.split(" ")\<close>: the pieces between single separator characters; never empty.\<close>

fun split_on :: "'a \<Rightarrow> 'a list \<Rightarrow> 'a list list" where
  "split_on sep [] = [[]]"
| "split_on sep (c # cs) =
     (if c = sep then [] # split_on sep cs
      else (case split_on sep cs of [] \<Rightarrow> [[c]] | w # ws \<Rightarrow> (c # w) # ws))"

text \<open>
  \<open>data.find(sub, start)\<close> for \<open>start \<ge> 0\<close>: the lowest index from \<open>start\<close> on at which
  \<open>sub\<close> occurs in \<open>data\<close>, or \<open>-1\<close>. \<open>find_from sub xs i\<close> searches the suffix \<open>xs\<close>
  that begins at index \<open>i\<close>.
\<close>

fun find_from :: "bytes \<Rightarrow> bytes \<Rightarrow> nat \<Rightarrow> int" where
  "find_from sub [] i = (if sub = [] then int i else - 1)"
| "find_from sub (x # xs) i =
     (if take (length sub) (x # xs) = sub then int i else find_from sub xs (i + 1))"

definition py_find :: "bytes \<Rightarrow> bytes \<Rightarrow> nat \<Rightarrow> int" where
  "py_find data sub start =
     (if start \<le> length data then find_from sub (drop start data) start else - 1)"

text \<open>find_sub_array_index (lines 26-28).\<close>

definition find_sub_array_index :: "bytes \<Rightarrow> bytes \<Rightarrow> nat \<Rightarrow> int" where
  "find_sub_array_index data sub start = py_find data sub start"

section \<open>The fixed header region (lines 85-96 and 132-160)\<close>

text \<open>The 32-byte canonical leading box of lines 89-94.\<close>

definition ftyp_box :: bytes where
  "ftyp_box = [NUL, NUL, NUL, CHR 0x20] @ ''ftypisom'' @ [NUL, NUL, CHR 0x02, NUL]
               @ ''isomiso2avc1mp41''"

text \<open>
  Lines 85-96. The byte stores at the constant indices 2, 3 and 12 hit a buffer of 288
  bytes (lemma \<open>length_ftyp_init\<close> below), so none of them can raise; the only failure is
  the image size not fitting four bytes.
\<close>

definition ftyp_init :: "nat \<Rightarrow> error + bytes" where
  "ftyp_init png_size =
     (let b0 = replicate (256 + 32) NUL;
          b1 = b0[2 := CHR 0x01];
          b2 = b1[3 := CHR 0x20];
          b3 = set_slice b2 4 8 ''ftyp'';
          b4 = set_slice b3 256 288 ftyp_box;
          b5 = b4[12 := CHR 0x20]
      in case number_to_4b_le png_size of
           Inl e \<Rightarrow> Inl e
         | Inr size_field \<Rightarrow> Inr (set_slice b5 14 18 size_field))"

text \<open>Lines 118-124: the hypertext, when given, is wrapped in fixed markup.\<close>

definition html_prefix :: string where
  "html_prefix = ''--><style>body{font-size:0}</style><div style=font-size:initial>''"

definition html_suffix :: string where
  "html_suffix = ''</div><!--''"

definition html_markup :: "pystr option \<Rightarrow> pystr" where
  "html_markup html =
     (case html of
        None \<Rightarrow> []
      | Some text \<Rightarrow> literal html_prefix @ text @ literal html_suffix)"

text \<open>
  Lines 133-141: image offset, marker bytes, brands, the extra bytes from byte 22 on and
  the comment opener behind them. The free cursor ends at \<open>22 + len(extra_bytes) + 4\<close>.
\<close>

definition header_fields :: "bytes \<Rightarrow> nat \<Rightarrow> bytes \<Rightarrow> error + bytes" where
  "header_fields ftyp_buffer png_offset extra_bytes =
     (case number_to_4b_le png_offset of
        Inl e \<Rightarrow> Inl e
      | Inr offset_field \<Rightarrow>
          (let b1 = set_slice ftyp_buffer 18 22 offset_field;
               b2 = set_slice b1 4 8 [CHR 0x01, NUL, NUL, NUL];
               b3 = set_slice b2 240 256 ''isomiso2avc1mp41'';
               b4 = set_slice b3 22 (22 + length extra_bytes) extra_bytes;
               b5 = set_slice b4 (22 + length extra_bytes) (22 + length extra_bytes + 4) ''<!--''
           in Inr b5))"

text \<open>The f-string of lines 152-154; all its characters are ASCII, one byte each.\<close>

definition obj_string :: "int \<Rightarrow> string" where
  "obj_string len =
     [NL] @ ''1 0 obj'' @ [NL] @ ''<</Length '' @ py_str len @ ''>>'' @ [NL] @ ''stream'' @ [NL]"

text \<open>
  The loop of lines 150-156. It has no bound: when no candidate matches, the loop never
  exits, which is the value \<open>None\<close> here.
\<close>

partial_function (option) fit_obj_string :: "int \<Rightarrow> int \<Rightarrow> int \<Rightarrow> int \<Rightarrow> (int \<times> string) option" where
  "fit_obj_string mp4_size atom_free_addr extra_len offset =
     (let offset' = offset - 1;
          obj = obj_string (mp4_size - atom_free_addr - extra_len - offset')
      in if offset' = int (length obj) then Some (offset', obj)
         else fit_obj_string mp4_size atom_free_addr extra_len offset')"

declare fit_obj_string.simps [code]

text \<open>The exit test of line 155 for the candidate width \<open>c\<close>.\<close>

definition exact_fit :: "int \<Rightarrow> int \<Rightarrow> int \<Rightarrow> int \<Rightarrow> bool" where
  "exact_fit mp4_size atom_free_addr extra_len c \<longleftrightarrow>
     c = int (length (obj_string (mp4_size - atom_free_addr - extra_len - c)))"

text \<open>
  Lines 144-160, the document part of the header: a newline and the first nine document
  bytes at the cursor, then the object header string, placed at
  \<open>atom_free_addr + len(extra_bytes)\<close>.
\<close>

definition splice_pdf :: "bytes \<Rightarrow> bytes \<Rightarrow> bytes \<Rightarrow> nat \<Rightarrow> (error + bytes) option" where
  "splice_pdf ftyp_buffer pdf_bytes extra_bytes mp4_size =
     (let atom_free_addr = 22 + length extra_bytes + 4
      in case set_byte ftyp_buffer atom_free_addr NL of
           Inl e \<Rightarrow> Some (Inl e)
         | Inr b1 \<Rightarrow>
             (let b2 = set_slice b1 (atom_free_addr + 1) (atom_free_addr + 10) (take 9 pdf_bytes);
                  atom_free_addr' = atom_free_addr + 10;
                  offset = 30 + int (length (py_str (int mp4_size)))
              in case fit_obj_string (int mp4_size) (int atom_free_addr')
                        (int (length extra_bytes)) offset of
                   None \<Rightarrow> None
                 | Some (offset', obj_bytes) \<Rightarrow>
                     (let start = atom_free_addr' + length extra_bytes
                      in Some (Inr (set_slice b2 start (start + length obj_bytes) obj_bytes)))))"

section \<open>The document tail (lines 168-198)\<close>

definition object_terminator :: bytes where
  "object_terminator = [NL] @ ''endstream'' @ [NL] @ ''endobj'' @ [NL]"

text \<open>
  Lines 180-181: the table header is decoded as a whole and stripped, its newlines become
  blanks, and the object count is read from the last of the words between single blanks.
\<close>

definition xref_count :: "bytes \<Rightarrow> error + int" where
  "xref_count xref_header =
     (case decode_utf8 xref_header of
        Inl e \<Rightarrow> Inl e
      | Inr s \<Rightarrow>
          int_of_str (last (split_on 32 (map (\<lambda>c. if c = 10 then 32 else c) (py_strip s)))))"

text \<open>
  Lines 183-187, \<open>count\<close> iterations. The buffer is changed in place, so an exception
  leaves the stores made so far: the result is the buffer together with the exception, if
  any.
\<close>

fun patch_entries :: "nat \<Rightarrow> nat \<Rightarrow> int \<Rightarrow> bytes \<Rightarrow> bytes \<times> error option" where
  "patch_entries 0 curr_pos out_size pdf_buffer = (pdf_buffer, None)"
| "patch_entries (Suc k) curr_pos out_size pdf_buffer =
     (case py_int (get_slice pdf_buffer curr_pos (curr_pos + 10)) of
        Inl e \<Rightarrow> (pdf_buffer, Some e)
      | Inr offset \<Rightarrow>
          (let new_offset = offset + out_size;
               buf = set_slice pdf_buffer curr_pos (curr_pos + 10) (take 10 (pad_left new_offset 10));
               curr_pos' = nat (py_find buf [NL] (curr_pos + 1) + 1)
           in patch_entries k curr_pos' out_size buf))"

text \<open>Lines 192-193: every byte from index \<open>k\<close> on is set to zero, one store per index.\<close>

definition zero_from :: "bytes \<Rightarrow> nat \<Rightarrow> bytes" where
  "zero_from buf k = fold (\<lambda>i b. b[i := NUL]) [k..<length buf] buf"

text \<open>Lines 188-193: the trailer pointer, the end marker and the zeroed rest.\<close>

definition patch_startxref :: "bytes \<Rightarrow> nat \<Rightarrow> nat \<Rightarrow> int \<Rightarrow> bytes \<times> error option" where
  "patch_startxref pdf_buffer startxref_start startxref_end out_size =
     (case py_int (get_slice pdf_buffer (startxref_start + 10) startxref_end) of
        Inl e \<Rightarrow> (pdf_buffer, Some e)
      | Inr startxref \<Rightarrow>
          (case py_str_limited (startxref + out_size) of
             Inl e \<Rightarrow> (pdf_buffer, Some e)
           | Inr new_startxref \<Rightarrow>
               (let n = length new_startxref;
                    b1 = set_slice pdf_buffer (startxref_start + 10) (startxref_start + 10 + n)
                           new_startxref;
                    b2 = set_slice b1 (startxref_start + 10 + n) (startxref_start + 15 + n)
                           ([NL] @ ''%%EOF'' @ [NL])
                in (zero_from b2 (startxref_start + n + 17), None))))"

text \<open>
  Lines 169-196: \<open>file_size\<close> is the size of the output file after the media part was
  written. The result is the buffer that line 198 appends, and the exception that the
  \<open>except\<close> clause caught, if any.
\<close>

definition pdf_tail :: "bytes \<Rightarrow> nat \<Rightarrow> bytes \<times> error option" where
  "pdf_tail pdf_bytes file_size =
     (let pdf_buffer = object_terminator @ pdf_bytes;
          xref_start = find_sub_array_index pdf_buffer ([NL] @ ''xref'') 0 + 1;
          offset_start = find_sub_array_index pdf_buffer ([NL] @ ''0000000000'') (nat xref_start) + 1;
          startxref_start = find_sub_array_index pdf_buffer ([NL] @ ''startxref'') (nat xref_start) + 1;
          startxref_end = py_find pdf_buffer [NL] (nat (startxref_start + 11))
      in if min (min xref_start offset_start) (min startxref_start startxref_end) \<le> 0
         then (pdf_buffer, Some XrefNotFound)
         else
           (let out_size = int file_size + int (length object_terminator)
            in case xref_count (get_slice pdf_buffer (nat xref_start) (nat offset_start)) of
                 Inl e \<Rightarrow> (pdf_buffer, Some e)
               | Inr count \<Rightarrow>
                   (case patch_entries (nat count) (nat offset_start) out_size pdf_buffer of
                      (buf, Some e) \<Rightarrow> (buf, Some e)
                    | (buf, None) \<Rightarrow>
                        patch_startxref buf (nat startxref_start) (nat startxref_end) out_size)))"

section \<open>main (lines 53-216)\<close>

text \<open>
  What a run reads: the converted image \<open>img.png\<close>, the transcoded container
  \<open>orig.mp4\<close>, the text of the \<open>--html\<close> file, the bytes of the \<open>--pdf\<close> and \<open>--extra\<close>
  files (\<open>None\<close> when the option is absent), the appendable files in order (\<open>None\<close> for a
  path that does not exist) and the merged archive (\<open>None\<close> without \<open>--zip\<close>). Image
  conversion, transcoding and archive merging are done by other programs and are not
  modelled.
\<close>

record inputs =
  png_file :: bytes
  mp4_file :: bytes
  html_file :: "pystr option"
  pdf_file :: "bytes option"
  extra_file :: "bytes option"
  appendable_files :: "bytes option list"
  merged_zip :: "bytes option"

text \<open>
  What a completed run leaves: the header region, the wrapper box and the media remainder,
  the bytes written at line 163, the file after the store of lines 164-166, the document
  tail appended at line 198 with the exception caught on the way (both absent without a
  document), and the final output file.
\<close>

record run =
  ftyp_buffer :: bytes
  skip_atom :: bytes
  rest_bytes :: bytes
  final_mp4 :: bytes
  zeroed :: bytes
  pdf_buffer :: "bytes option"
  caught :: "error option"
  out_file :: bytes

text \<open>A file opened \<open>r+b\<close>, \<open>seek(pos)\<close>, \<open>write(data)\<close>: a gap is filled with zero bytes.\<close>

definition write_at :: "bytes \<Rightarrow> nat \<Rightarrow> bytes \<Rightarrow> bytes" where
  "write_at file pos data =
     (if pos \<le> length file then take pos file @ data @ drop (pos + length data) file
      else file @ replicate (pos - length file) NUL @ data)"

text \<open>Line 78: without the \<open>--extra\<close> option the extra bytes are empty.\<close>

definition extra_bytes_of :: "inputs \<Rightarrow> bytes" where
  "extra_bytes_of inp = (case extra_file inp of None \<Rightarrow> [] | Some b \<Rightarrow> b)"

text \<open>Lines 78-160: the three parts of the media file, or the exception raised on the way.\<close>

definition assemble :: "inputs \<Rightarrow> (error + bytes \<times> bytes \<times> bytes) option" where
  "assemble inp =
     (let extra_bytes = extra_bytes_of inp
      in case ftyp_init (length (png_file inp)) of
           Inl e \<Rightarrow> Some (Inl e)
         | Inr ftyp0 \<Rightarrow>
      (let html_string = html_markup (html_file inp)
       in case build_skip_atom (png_file inp) html_string of
            Inl e \<Rightarrow> Some (Inl e)
          | Inr skip \<Rightarrow>
      (let orig_bytes = mp4_file inp;
           orig_ftyp_size = from_bytes_be (get_slice orig_bytes 0 4);
           rest = drop orig_ftyp_size orig_bytes
       in case encode_utf8 html_string of
            Inl e \<Rightarrow> Some (Inl e)
          | Inr html_bytes \<Rightarrow>
      (let png_offset = length ftyp0 + length (get_slice skip 0 8) + length html_bytes
       in case header_fields ftyp0 png_offset extra_bytes of
            Inl e \<Rightarrow> Some (Inl e)
          | Inr ftyp1 \<Rightarrow>
      (case pdf_file inp of
         None \<Rightarrow> Some (Inr (ftyp1, skip, rest))
       | Some pdf_bytes \<Rightarrow>
           (let mp4_size = length ftyp1 + length skip + length rest
            in case splice_pdf ftyp1 pdf_bytes extra_bytes mp4_size of
                 None \<Rightarrow> None
               | Some (Inl e) \<Rightarrow> Some (Inl e)
               | Some (Inr ftyp2) \<Rightarrow> Some (Inr (ftyp2, skip, rest))))))))"

text \<open>Lines 200-213: the appendables that exist, then the merged archive.\<close>

definition append_tails :: "bytes \<Rightarrow> bytes option list \<Rightarrow> bytes option \<Rightarrow> bytes" where
  "append_tails file apps archive =
     fold (\<lambda>a f. case a of None \<Rightarrow> f | Some b \<Rightarrow> f @ b) apps file
     @ (case archive of None \<Rightarrow> [] | Some z \<Rightarrow> z)"

definition main :: "inputs \<Rightarrow> (error + run) option" where
  "main inp =
     (case assemble inp of
        None \<Rightarrow> None
      | Some (Inl e) \<Rightarrow> Some (Inl e)
      | Some (Inr (ftyp, skip, rest)) \<Rightarrow>
          (let final = ftyp @ skip @ rest;
               file = write_at final 3 [NUL];
               (tail, exn) =
                 (case pdf_file inp of
                    None \<Rightarrow> (None, None)
                  | Some pdf_bytes \<Rightarrow>
                      (let (buf, e) = pdf_tail pdf_bytes (length file) in (Some buf, e)));
               file' = (case tail of None \<Rightarrow> file | Some buf \<Rightarrow> file @ buf)
           in Some (Inr \<lparr> ftyp_buffer = ftyp, skip_atom = skip, rest_bytes = rest,
                          final_mp4 = final, zeroed = file, pdf_buffer = tail, caught = exn,
                          out_file = append_tails file' (appendable_files inp) (merged_zip inp) \<rparr>)))"


text \<open>
  When the splices stay inside the 288 bytes: without a document, the extra bytes and the
  comment opener end by byte 288; with a document, it has the nine bytes line 147 takes and
  the object header string, at most 29 characters and the digits of \<open>mp4_size\<close> long,
  ends by byte 288 from its place \<open>36 + 2 * len(extra_bytes)\<close>.
\<close>

definition splices_fit :: "inputs \<Rightarrow> run \<Rightarrow> bool" where
  "splices_fit inp r =
     (case pdf_file inp of
        None \<Rightarrow> 26 + length (extra_bytes_of inp) \<le> 288
      | Some pdf_bytes \<Rightarrow>
          9 \<le> length pdf_bytes
          \<and> 36 + 2 * length (extra_bytes_of inp) + 29
              + length (py_str (int (288 + length (skip_atom r) + length (rest_bytes r)))) \<le> 288)"

text \<open>
  The inputs on which lines 85-141 raise nothing: the hypertext can be encoded, and the size
  of the wrapper box and the image offset fit four bytes.
\<close>

definition sizes_fit :: "inputs \<Rightarrow> bool" where
  "sizes_fit inp =
     (case encode_utf8 (html_markup (html_file inp)) of
        Inl e \<Rightarrow> False
      | Inr hb \<Rightarrow> length hb + length (png_file inp) + 8 < 2 ^ 32 \<and> length hb + 296 < 2 ^ 32)"

section \<open>The offsets of a patched document\<close>

text \<open>
  To state what the patch does to a document, the parts of the document are named from its
  bytes: the four anchors that lines 172-175 search for, the place of the trailer pointer's
  number and the newline that ends it, and the entries of the cross-reference table.
\<close>

definition xref_anchors :: "bytes \<Rightarrow> int \<times> int \<times> int \<times> int" where
  "xref_anchors buf =
     (let xref_start = find_sub_array_index buf ([NL] @ ''xref'') 0 + 1;
          offset_start = find_sub_array_index buf ([NL] @ ''0000000000'') (nat xref_start) + 1;
          startxref_start = find_sub_array_index buf ([NL] @ ''startxref'') (nat xref_start) + 1;
          startxref_end = py_find buf [NL] (nat (startxref_start + 11))
      in (xref_start, offset_start, startxref_start, startxref_end))"

definition trailer_pos :: "bytes \<Rightarrow> nat" where
  "trailer_pos buf =
     (case xref_anchors buf of
        (xref_start, offset_start, startxref_start, startxref_end) \<Rightarrow> nat startxref_start + 10)"

definition trailer_end :: "bytes \<Rightarrow> nat" where
  "trailer_end buf =
     (case xref_anchors buf of
        (xref_start, offset_start, startxref_start, startxref_end) \<Rightarrow> nat startxref_end)"

text \<open>
  A table entry as a document stores it is a line of twenty bytes: ten decimal digits, a
  blank, eight more bytes and the newline that ends the line. \<open>entry_line buf p\<close> looks
  at the twenty bytes from position \<open>p\<close> on; the entries of a document are all the lines
  of its buffer that have this form (a line begins after a newline).
\<close>

definition entry_line :: "bytes \<Rightarrow> nat \<Rightarrow> bool" where
  "entry_line buf p =
     (let l = take 20 (drop p buf)
      in length l = 20 \<and> list_all is_digit (take 10 l) \<and> l ! 10 = CHR '' ''
         \<and> list_all (\<lambda>c. c \<noteq> NL) (take 9 (drop 10 l)) \<and> l ! 19 = NL)"

definition entry_lines :: "bytes \<Rightarrow> nat list" where
  "entry_lines buf = filter (\<lambda>p. buf ! (p - 1) = NL \<and> entry_line buf p) [1..<length buf]"

text \<open>
  A document whose table is a single section: a header line stating the object count,
  then one entry per object and no other entry anywhere, the first being the zero entry
  that line 173 searches for, and the \<open>startxref\<close> keyword after the last.
\<close>

definition single_section :: "bytes \<Rightarrow> bool" where
  "single_section buf =
     (case xref_anchors buf of
        (xref_start, offset_start, startxref_start, startxref_end) \<Rightarrow>
          (case xref_count (get_slice buf (nat xref_start) (nat offset_start)) of
             Inl e \<Rightarrow> False
           | Inr count \<Rightarrow>
               entry_lines buf = map (\<lambda>k. nat offset_start + 20 * k) [0..<nat count]
               \<and> nat offset_start + 20 * nat count \<le> nat startxref_start))"

section \<open>Sample runs\<close>

text \<open>
  Inputs used to exercise the theorems below: a three-byte stand-in for the image, a
  container whose leading box is eight bytes long, and no option.
\<close>

definition sample_plain :: inputs where
  "sample_plain =
     \<lparr> png_file = ''PNG'', mp4_file = [NUL, NUL, NUL, CHR 0x08] @ ''ftypmoov'',
       html_file = None, pdf_file = None, extra_file = None,
       appendable_files = [], merged_zip = None \<rparr>"

text \<open>A container of five bytes whose first four bytes declare a leading box of eight.\<close>

definition sample_short_container :: inputs where
  "sample_short_container = sample_plain \<lparr> mp4_file := [NUL, NUL, NUL, CHR 0x08, CHR 0x01] \<rparr>"

text \<open>An \<open>--extra\<close> file of 263 bytes.\<close>

definition sample_long_extra :: inputs where
  "sample_long_extra = sample_plain \<lparr> extra_file := Some (replicate 263 (CHR ''x'')) \<rparr>"

text \<open>An \<open>--html\<close> file, alone and together with the 263 extra bytes.\<close>

definition sample_html :: inputs where
  "sample_html = sample_plain \<lparr> html_file := Some (literal ''<b>hi</b>'') \<rparr>"

definition sample_html_long_extra :: inputs where
  "sample_html_long_extra = sample_long_extra \<lparr> html_file := Some (literal ''<b>hi</b>'') \<rparr>"

text \<open>
  A small document of 117 bytes with a cross-reference table of two entries at byte 29,
  attached to the plain run; and the same with an image of 768 bytes, which makes the
  media part 1068 bytes long.
\<close>

definition sample_document :: bytes where
  "sample_document =
     ''%PDF-1.4'' @ [NL] @ ''1 0 obj'' @ [NL] @ ''<<>>'' @ [NL] @ ''endobj'' @ [NL]
     @ ''xref'' @ [NL] @ ''0 2'' @ [NL]
     @ ''0000000000 65535 f '' @ [NL] @ ''0000000009 00000 n '' @ [NL]
     @ ''trailer'' @ [NL] @ ''<</Size 2>>'' @ [NL]
     @ ''startxref'' @ [NL] @ ''29'' @ [NL] @ ''%%EOF'' @ [NL]"

definition sample_pdf :: inputs where
  "sample_pdf = sample_plain \<lparr> pdf_file := Some sample_document \<rparr>"

text \<open>The sample document together with an \<open>--extra\<close> file of 262 bytes.\<close>

definition sample_pdf_long_extra :: inputs where
  "sample_pdf_long_extra = sample_pdf \<lparr> extra_file := Some (replicate 262 (CHR ''x'')) \<rparr>"

definition sample_1068 :: inputs where
  "sample_1068 = sample_pdf \<lparr> png_file := replicate 768 (CHR ''x'') \<rparr>"

text \<open>The number that a string of decimal digits denotes, read from the left.\<close>

definition digits_value :: "string \<Rightarrow> int \<Rightarrow> int" where
  "digits_value ds acc = foldl (\<lambda>a c. 10 * a + digit_val c) acc ds"

text \<open>
  The sample document with \<open>9999999999\<close> as the offset of its second entry, attached to
  the plain run.
\<close>

definition far_document :: bytes where
  "far_document =
     ''%PDF-1.4'' @ [NL] @ ''1 0 obj'' @ [NL] @ ''<<>>'' @ [NL] @ ''endobj'' @ [NL]
     @ ''xref'' @ [NL] @ ''0 2'' @ [NL]
     @ ''0000000000 65535 f '' @ [NL] @ ''9999999999 00000 n '' @ [NL]
     @ ''trailer'' @ [NL] @ ''<</Size 2>>'' @ [NL]
     @ ''startxref'' @ [NL] @ ''29'' @ [NL] @ ''%%EOF'' @ [NL]"

definition sample_far :: inputs where
  "sample_far = sample_plain \<lparr> pdf_file := Some far_document \<rparr>"

text \<open>
  The sample document with its table in two subsections of one entry each, attached to the
  plain run.
\<close>

definition two_section_document :: bytes where
  "two_section_document =
     ''%PDF-1.4'' @ [NL] @ ''1 0 obj'' @ [NL] @ ''<<>>'' @ [NL] @ ''endobj'' @ [NL]
     @ ''xref'' @ [NL] @ ''0 1'' @ [NL] @ ''0000000000 65535 f '' @ [NL]
     @ ''1 1'' @ [NL] @ ''0000000009 00000 n '' @ [NL]
     @ ''trailer'' @ [NL] @ ''<</Size 2>>'' @ [NL]
     @ ''startxref'' @ [NL] @ ''29'' @ [NL] @ ''%%EOF'' @ [NL]"

definition sample_two_sections :: inputs where
  "sample_two_sections = sample_plain \<lparr> pdf_file := Some two_section_document \<rparr>"

section \<open>Facts about the primitives\<close>

lemma length_set_slice:
  "length (set_slice buf a b v) =
     min a (length buf) + length v + (length buf - max (min a (length buf)) (min b (length buf)))"
  by (auto simp: set_slice_def Let_def min_def max_def)

lemma length_set_slice_fit:
  "a + length v = b \<Longrightarrow> b \<le> length buf \<Longrightarrow> length (set_slice buf a b v) = length buf"
  by (auto simp: length_set_slice)

lemma take_set_slice:
  "k \<le> a \<Longrightarrow> k \<le> length buf \<Longrightarrow> take k (set_slice buf a b v) = take k buf"
  by (simp add: set_slice_def Let_def min_def)

lemma length_number_to_4b_be: "number_to_4b_be n = Inr bs \<Longrightarrow> length bs = 4"
  by (auto simp: number_to_4b_be_def split: if_splits)

lemma length_number_to_4b_le: "number_to_4b_le n = Inr bs \<Longrightarrow> length bs = 4"
  by (auto simp: number_to_4b_le_def split: if_splits)

lemma four_bytes_value:
  fixes n :: nat
  assumes "n < 2 ^ 32"
  shows "((n div 2 ^ 24 mod 256 * 256 + n div 2 ^ 16 mod 256) * 256 + n div 2 ^ 8 mod 256) * 256
           + n mod 256 = n"
proof -
  define m1 where "m1 = n div 256"
  define m2 where "m2 = m1 div 256"
  define m3 where "m3 = m2 div 256"
  have e1: "n div 2 ^ 8 = m1" by (simp add: m1_def)
  have "n div 2 ^ 16 = n div (256 * 256)" by simp
  also have "\<dots> = m2" unfolding m2_def m1_def by (rule div_mult2_eq)
  finally have e2: "n div 2 ^ 16 = m2" .
  have "n div 2 ^ 24 = n div (256 * 256 * 256)" by simp
  also have "\<dots> = m3" unfolding m3_def m2_def m1_def by (simp only: div_mult2_eq)
  finally have e3: "n div 2 ^ 24 = m3" .
  have "m3 < 256" using assms unfolding e3 [symmetric] by (simp add: less_mult_imp_div_less)
  then have a: "m3 mod 256 = m3" by simp
  have b: "m3 * 256 + m2 mod 256 = m2" unfolding m3_def by simp
  have c: "m2 * 256 + m1 mod 256 = m1" unfolding m2_def by simp
  have d: "m1 * 256 + n mod 256 = n" unfolding m1_def by simp
  show ?thesis unfolding e1 e2 e3 a b c d ..
qed

lemma from_bytes_be_number_to_4b_be:
  assumes "number_to_4b_be n = Inr bs"
  shows "from_bytes_be bs = n"
proof -
  have n: "n < 2 ^ 32" and bs: "bs = [char_of (n div 2 ^ 24), char_of (n div 2 ^ 16), char_of (n div 2 ^ 8), char_of n]"
    using assms by (auto simp: number_to_4b_be_def split: if_splits)
  have "from_bytes_be bs =
      ((n div 2 ^ 24 mod 256 * 256 + n div 2 ^ 16 mod 256) * 256 + n div 2 ^ 8 mod 256) * 256 + n mod 256"
    unfolding bs from_bytes_be_def by (simp only: foldl.simps of_char_of) simp
  then show ?thesis by (simp only: four_bytes_value [OF n])
qed

lemma from_bytes_le_number_to_4b_le:
  assumes "number_to_4b_le n = Inr bs"
  shows "from_bytes_le bs = n"
proof -
  have n: "n < 2 ^ 32" and bs: "bs = [char_of n, char_of (n div 2 ^ 8), char_of (n div 2 ^ 16), char_of (n div 2 ^ 24)]"
    using assms by (auto simp: number_to_4b_le_def split: if_splits)
  have "from_bytes_le bs =
      ((n div 2 ^ 24 mod 256 * 256 + n div 2 ^ 16 mod 256) * 256 + n div 2 ^ 8 mod 256) * 256 + n mod 256"
    unfolding bs from_bytes_le_def by (simp only: foldr.simps of_char_of comp_def) simp
  then show ?thesis by (simp only: four_bytes_value [OF n])
qed

lemma encode_utf8_append:
  "encode_utf8 (a @ b) =
     (case encode_utf8 a of
        Inl e \<Rightarrow> Inl e
      | Inr x \<Rightarrow> (case encode_utf8 b of Inl e \<Rightarrow> Inl e | Inr y \<Rightarrow> Inr (x @ y)))"
  by (induction a) (auto split: sum.splits)

lemma set_slice_fit:
  "a + length v = b \<Longrightarrow> b \<le> length buf \<Longrightarrow> set_slice buf a b v = take a buf @ v @ drop b buf"
  by (auto simp: set_slice_def Let_def min_def max_def)

lemma drop_set_slice:
  assumes "a + length v = b" "b \<le> i" "b \<le> length buf"
  shows "drop i (set_slice buf a b v) = drop i buf"
proof -
  have "drop i (take a buf @ v @ drop b buf) = drop (i - a - length v) (drop b buf)"
    using assms by (simp add: min_def)
  also have "\<dots> = drop i buf" using assms by (simp add: add.commute)
  finally show ?thesis using assms by (simp add: set_slice_fit)
qed

lemma get_slice_set_slice_before:
  "j \<le> a \<Longrightarrow> j \<le> length buf \<Longrightarrow> get_slice (set_slice buf a b v) i j = get_slice buf i j"
  by (simp add: get_slice_def take_set_slice)

lemma get_slice_set_slice_after:
  "a + length v = b \<Longrightarrow> b \<le> i \<Longrightarrow> b \<le> length buf \<Longrightarrow>
   get_slice (set_slice buf a b v) i j = get_slice buf i j"
  unfolding get_slice_def drop_take by (simp add: drop_set_slice)

lemma get_slice_set_slice_same:
  "a + length v = b \<Longrightarrow> b \<le> length buf \<Longrightarrow> get_slice (set_slice buf a b v) a b = v"
  by (cases v) (auto simp: set_slice_fit get_slice_def min_def)

lemma set_byte_Inr:
  "set_byte buf i c = Inr b \<Longrightarrow> length b = length buf \<and> i < length buf \<and> (\<forall>k\<le>i. take k b = take k buf)"
  by (auto simp: set_byte_def split: if_splits)

lemma length_set_slice_ge:
  "a \<le> length buf \<Longrightarrow> a + length v \<le> length (set_slice buf a b v)"
  by (auto simp: length_set_slice)

lemma length_set_slice_ge_min:
  "min a (length buf) \<le> length (set_slice buf a b v)"
  by (auto simp: length_set_slice)

lemma length_ftyp_init: "ftyp_init n = Inr b \<Longrightarrow> length b = 288"
  by (auto simp: ftyp_init_def Let_def length_set_slice ftyp_box_def dest: length_number_to_4b_le
      split: sum.splits)

lemma header_fields_Inr:
  assumes "header_fields b off extra = Inr h" and "length b = 288"
  shows "length h = max 288 (26 + length extra)"
    and "from_bytes_le (get_slice h 18 22) = off"
proof -
  obtain fld where fld: "number_to_4b_le off = Inr fld"
    and h: "h = set_slice (set_slice (set_slice (set_slice (set_slice b 18 22 fld) 4 8
                  [CHR 0x01, NUL, NUL, NUL]) 240 256 ''isomiso2avc1mp41'')
                  22 (22 + length extra) extra) (22 + length extra) (22 + length extra + 4) ''<!--''"
    using assms(1) by (auto simp: header_fields_def Let_def split: sum.splits)
  have lf: "length fld = 4" using fld by (rule length_number_to_4b_le)
  define b1 where "b1 = set_slice b 18 22 fld"
  define b2 where "b2 = set_slice b1 4 8 [CHR 0x01, NUL, NUL, NUL]"
  define b3 where "b3 = set_slice b2 240 256 ''isomiso2avc1mp41''"
  define b4 where "b4 = set_slice b3 22 (22 + length extra) extra"
  have l1: "length b1 = 288" unfolding b1_def using lf assms(2) by (simp add: length_set_slice)
  have l2: "length b2 = 288" unfolding b2_def using l1 by (simp add: length_set_slice)
  have l3: "length b3 = 288" unfolding b3_def using l2 by (simp add: length_set_slice)
  have l4: "length b4 = max 288 (22 + length extra)"
    unfolding b4_def using l3 by (auto simp: length_set_slice)
  have h': "h = set_slice b4 (22 + length extra) (22 + length extra + 4) ''<!--''"
    unfolding h b4_def b3_def b2_def b1_def ..
  show "length h = max 288 (26 + length extra)"
    unfolding h' using l4 by (auto simp: length_set_slice)
  have "get_slice h 18 22 = get_slice b4 18 22"
    unfolding h' using l4 by (intro get_slice_set_slice_before) auto
  also have "\<dots> = get_slice b3 18 22"
    unfolding b4_def using l3 by (intro get_slice_set_slice_before) auto
  also have "\<dots> = get_slice b2 18 22"
    unfolding b3_def using l2 by (intro get_slice_set_slice_before) auto
  also have "\<dots> = get_slice b1 18 22"
    unfolding b2_def using l1 by (intro get_slice_set_slice_after) auto
  also have "\<dots> = fld"
    unfolding b1_def using lf assms(2) by (intro get_slice_set_slice_same) auto
  finally show "from_bytes_le (get_slice h 18 22) = off"
    using fld by (simp add: from_bytes_le_number_to_4b_le)
qed

lemma fit_obj_string_unfold:
  "fit_obj_string m a e offset =
     (if exact_fit m a e (offset - 1)
      then Some (offset - 1, obj_string (m - a - e - (offset - 1)))
      else fit_obj_string m a e (offset - 1))"
  by (subst fit_obj_string.simps) (simp only: Let_def exact_fit_def)

lemma fit_obj_string_Some:
  "fit_obj_string m a e offset = Some res \<Longrightarrow>
     fst res < offset \<and> snd res = obj_string (m - a - e - fst res) \<and> exact_fit m a e (fst res)
     \<and> (\<forall>c. fst res < c \<and> c < offset \<longrightarrow> \<not> exact_fit m a e c)"
proof (induction rule: fit_obj_string.raw_induct[rotated 1, consumes 1])
  case (1 fit m a e offset res)
  have step: "(if exact_fit m a e (offset - 1)
               then Some (offset - 1, obj_string (m - a - e - (offset - 1)))
               else fit m a e (offset - 1)) = Some res"
    using 1(2) by (simp only: Let_def exact_fit_def)
  show ?case
  proof (cases "exact_fit m a e (offset - 1)")
    case True
    with step have "res = (offset - 1, obj_string (m - a - e - (offset - 1)))"
      by simp
    with True show ?thesis by auto
  next
    case False
    with step have "fit m a e (offset - 1) = Some res" by simp
    from 1(1) [OF this] have IH: "fst res < offset - 1" "snd res = obj_string (m - a - e - fst res)"
      "exact_fit m a e (fst res)" "\<forall>c. fst res < c \<and> c < offset - 1 \<longrightarrow> \<not> exact_fit m a e c"
      by blast+
    have "\<not> exact_fit m a e c" if "fst res < c" "c < offset" for c
    proof (cases "c = offset - 1")
      case True
      with False show ?thesis by simp
    next
      case False
      with that IH(4) show ?thesis by auto
    qed
    with IH show ?thesis by auto
  qed
qed

lemma fit_obj_string_first:
  assumes "exact_fit m a e (offset - int (Suc k))"
    and "\<And>j. j < k \<Longrightarrow> \<not> exact_fit m a e (offset - int (Suc j))"
  shows "fit_obj_string m a e offset =
           Some (offset - int (Suc k), obj_string (m - a - e - (offset - int (Suc k))))"
  using assms
proof (induction k arbitrary: offset)
  case 0
  then have "exact_fit m a e (offset - 1)" by simp
  then show ?case by (subst fit_obj_string_unfold) simp
next
  case (Suc k)
  have ne: "\<not> exact_fit m a e (offset - 1)"
    using Suc.prems(2) [of 0] by simp
  have eq: "offset - 1 - int (Suc j) = offset - int (Suc (Suc j))" for j by simp
  have "fit_obj_string m a e (offset - 1) =
          Some (offset - 1 - int (Suc k), obj_string (m - a - e - (offset - 1 - int (Suc k))))"
  proof (rule Suc.IH)
    show "exact_fit m a e (offset - 1 - int (Suc k))"
      using Suc.prems(1) unfolding eq .
    fix j assume "j < k"
    then show "\<not> exact_fit m a e (offset - 1 - int (Suc j))"
      using Suc.prems(2) [of "Suc j"] unfolding eq by simp
  qed
  then show ?case
    unfolding eq using ne by (subst fit_obj_string_unfold) simp
qed

lemma fit_obj_string_None:
  assumes "\<And>c. c < offset \<Longrightarrow> \<not> exact_fit m a e c"
  shows "fit_obj_string m a e offset = None"
proof (cases "fit_obj_string m a e offset")
  case None
  then show ?thesis .
next
  case (Some res)
  from fit_obj_string_Some [OF Some] assms [of "fst res"] show ?thesis by auto
qed

section \<open>Facts about the header and the run\<close>

lemma append_tails_prefix: "\<exists>sfx. append_tails fl apps archive = fl @ sfx"
proof -
  have "\<exists>sfx. fold (\<lambda>a f. case a of None \<Rightarrow> f | Some b \<Rightarrow> f @ b) apps fl = fl @ sfx"
  proof (induction apps arbitrary: fl)
    case Nil
    show ?case by simp
  next
    case (Cons a apps)
    show ?case
    proof (cases a)
      case None
      with Cons.IH [of fl] show ?thesis by simp
    next
      case (Some b)
      from Cons.IH [of "fl @ b"] obtain sfx
        where "fold (\<lambda>a f. case a of None \<Rightarrow> f | Some b \<Rightarrow> f @ b) apps (fl @ b) = (fl @ b) @ sfx"
        by blast
      with Some show ?thesis by simp
    qed
  qed
  then show ?thesis by (auto simp: append_tails_def)
qed

lemma write_at_3:
  "3 < length file \<Longrightarrow> write_at file 3 [NUL] = file[3 := NUL]"
  by (simp add: write_at_def upd_conv_take_nth_drop)

lemma splice_pdf_Inr:
  assumes "splice_pdf f1 pdf extra m = Some (Inr f)"
  shows "26 + length extra < length f1"
    and "\<exists>res. fit_obj_string (int m) (int (36 + length extra)) (int (length extra))
                 (30 + int (length (py_str (int m)))) = Some res
           \<and> f = set_slice (set_slice (f1[26 + length extra := NL]) (27 + length extra)
                     (36 + length extra) (take 9 pdf))
                   (36 + length extra + length extra)
                   (36 + length extra + length extra + length (snd res)) (snd res)"
proof -
  from assms obtain b1 where b1: "set_byte f1 (22 + length extra + 4) NL = Inr b1"
    by (auto simp: splice_pdf_def Let_def split: sum.splits)
  then have b1': "b1 = f1[26 + length extra := NL]" and lt: "26 + length extra < length f1"
    by (auto simp: set_byte_def add.commute add.left_commute split: if_splits)
  show "26 + length extra < length f1" by (rule lt)
  from assms b1 obtain res where
    res: "fit_obj_string (int m) (int (22 + length extra + 4 + 10)) (int (length extra))
            (30 + int (length (py_str (int m)))) = Some res"
    by (auto simp: splice_pdf_def Let_def split: option.splits)
  have e: "int (22 + length extra + 4 + 10) = int (36 + length extra)" by simp
  from assms b1 res have "f = set_slice (set_slice b1 (22 + length extra + 4 + 1)
        (22 + length extra + 4 + 10) (take 9 pdf))
        (22 + length extra + 4 + 10 + length extra)
        (22 + length extra + 4 + 10 + length extra + length (snd res)) (snd res)"
    by (cases res) (simp add: splice_pdf_def Let_def)
  then show "\<exists>res. fit_obj_string (int m) (int (36 + length extra)) (int (length extra))
                 (30 + int (length (py_str (int m)))) = Some res
           \<and> f = set_slice (set_slice (f1[26 + length extra := NL]) (27 + length extra)
                     (36 + length extra) (take 9 pdf))
                   (36 + length extra + length extra)
                   (36 + length extra + length extra + length (snd res)) (snd res)"
    using res unfolding e b1' by (intro exI [of _ res]) (simp add: add.commute add.left_commute)
qed


lemma assemble_Inr:
  assumes "assemble inp = Some (Inr (f, s, r))"
  shows "\<exists>f0 hb f1.
           ftyp_init (length (png_file inp)) = Inr f0
         \<and> build_skip_atom (png_file inp) (html_markup (html_file inp)) = Inr s
         \<and> encode_utf8 (html_markup (html_file inp)) = Inr hb
         \<and> r = drop (from_bytes_be (get_slice (mp4_file inp) 0 4)) (mp4_file inp)
         \<and> header_fields f0 (length f0 + length (get_slice s 0 8) + length hb) (extra_bytes_of inp) = Inr f1
         \<and> (case pdf_file inp of
               None \<Rightarrow> f = f1
             | Some pdf_bytes \<Rightarrow>
                 splice_pdf f1 pdf_bytes (extra_bytes_of inp) (length f1 + length s + length r) = Some (Inr f))"
proof -
  from assms obtain f0 where f0: "ftyp_init (length (png_file inp)) = Inr f0"
    by (cases "ftyp_init (length (png_file inp))") (auto simp: assemble_def Let_def)
  from assms f0 obtain s' where s': "build_skip_atom (png_file inp) (html_markup (html_file inp)) = Inr s'"
    by (cases "build_skip_atom (png_file inp) (html_markup (html_file inp))")
       (auto simp: assemble_def Let_def)
  from assms f0 s' obtain hb where hb: "encode_utf8 (html_markup (html_file inp)) = Inr hb"
    by (cases "encode_utf8 (html_markup (html_file inp))") (auto simp: assemble_def Let_def)
  from assms f0 s' hb obtain f1 where
    f1: "header_fields f0 (length f0 + length (get_slice s' 0 8) + length hb) (extra_bytes_of inp) = Inr f1"
    by (cases "header_fields f0 (length f0 + length (get_slice s' 0 8) + length hb) (extra_bytes_of inp)")
       (auto simp: assemble_def Let_def)
  have rest: "(case pdf_file inp of
         None \<Rightarrow> Some (Inr (f1, s', drop (from_bytes_be (get_slice (mp4_file inp) 0 4)) (mp4_file inp)))
       | Some pdf_bytes \<Rightarrow>
           (case splice_pdf f1 pdf_bytes (extra_bytes_of inp)
                   (length f1 + length s' + length (drop (from_bytes_be (get_slice (mp4_file inp) 0 4)) (mp4_file inp))) of
              None \<Rightarrow> None
            | Some (Inl e) \<Rightarrow> Some (Inl e)
            | Some (Inr ftyp2) \<Rightarrow> Some (Inr (ftyp2, s', drop (from_bytes_be (get_slice (mp4_file inp) 0 4)) (mp4_file inp)))))
        = Some (Inr (f, s, r))"
    using assms f0 s' hb f1 by (cases "pdf_file inp") (simp_all add: assemble_def Let_def)
  then have "s = s' \<and> r = drop (from_bytes_be (get_slice (mp4_file inp) 0 4)) (mp4_file inp)
      \<and> (case pdf_file inp of
               None \<Rightarrow> f = f1
             | Some pdf_bytes \<Rightarrow>
                 splice_pdf f1 pdf_bytes (extra_bytes_of inp) (length f1 + length s + length r) = Some (Inr f))"
    by (cases "pdf_file inp") (auto split: option.splits sum.splits)
  with f0 s' hb f1 show ?thesis by blast
qed

lemma main_Inr:
  assumes "main inp = Some (Inr r)"
  shows "assemble inp = Some (Inr (ftyp_buffer r, skip_atom r, rest_bytes r))"
    and "final_mp4 r = ftyp_buffer r @ skip_atom r @ rest_bytes r"
    and "zeroed r = write_at (final_mp4 r) 3 [NUL]"
    and "pdf_buffer r = map_option (\<lambda>p. fst (pdf_tail p (length (zeroed r)))) (pdf_file inp)"
    and "caught r = (case pdf_file inp of None \<Rightarrow> None | Some p \<Rightarrow> snd (pdf_tail p (length (zeroed r))))"
    and "out_file r = append_tails (zeroed r @ (case pdf_buffer r of None \<Rightarrow> [] | Some b \<Rightarrow> b))
                        (appendable_files inp) (merged_zip inp)"
proof -
  from assms obtain f s rs where a: "assemble inp = Some (Inr (f, s, rs))"
    by (auto simp: main_def split: option.splits sum.splits)
  have r: "r = \<lparr> ftyp_buffer = f, skip_atom = s, rest_bytes = rs, final_mp4 = f @ s @ rs,
        zeroed = write_at (f @ s @ rs) 3 [NUL],
        pdf_buffer = map_option (\<lambda>p. fst (pdf_tail p (length (write_at (f @ s @ rs) 3 [NUL])))) (pdf_file inp),
        caught = (case pdf_file inp of None \<Rightarrow> None
                  | Some p \<Rightarrow> snd (pdf_tail p (length (write_at (f @ s @ rs) 3 [NUL])))),
        out_file = append_tails (write_at (f @ s @ rs) 3 [NUL] @
             (case pdf_file inp of None \<Rightarrow> []
              | Some p \<Rightarrow> fst (pdf_tail p (length (write_at (f @ s @ rs) 3 [NUL])))))
             (appendable_files inp) (merged_zip inp) \<rparr>"
    using assms a by (cases "pdf_file inp") (auto simp: main_def Let_def split: prod.splits)
  show "assemble inp = Some (Inr (ftyp_buffer r, skip_atom r, rest_bytes r))"
    using a by (simp add: r)
  show "final_mp4 r = ftyp_buffer r @ skip_atom r @ rest_bytes r" by (simp add: r)
  show "zeroed r = write_at (final_mp4 r) 3 [NUL]" by (simp add: r)
  show "pdf_buffer r = map_option (\<lambda>p. fst (pdf_tail p (length (zeroed r)))) (pdf_file inp)"
    by (simp add: r)
  show "caught r = (case pdf_file inp of None \<Rightarrow> None | Some p \<Rightarrow> snd (pdf_tail p (length (zeroed r))))"
    by (cases "pdf_file inp") (simp_all add: r)
  show "out_file r = append_tails (zeroed r @ (case pdf_buffer r of None \<Rightarrow> [] | Some b \<Rightarrow> b))
                        (appendable_files inp) (merged_zip inp)"
    by (cases "pdf_file inp") (simp_all add: r)
qed

lemma splice_pdf_keeps_fields:
  assumes "splice_pdf f1 pdf extra m = Some (Inr f)" and "22 \<le> length f1"
  shows "take 22 f = take 22 f1" and "22 \<le> length f"
proof -
  let ?n = "length extra"
  have lt: "26 + ?n < length f1" using assms(1) by (rule splice_pdf_Inr(1))
  from splice_pdf_Inr(2) [OF assms(1)] obtain res where
    f: "f = set_slice (set_slice (f1[26 + ?n := NL]) (27 + ?n) (36 + ?n) (take 9 pdf))
              (36 + ?n + ?n) (36 + ?n + ?n + length (snd res)) (snd res)"
    by auto
  define x where "x = f1[26 + ?n := NL]"
  define y where "y = set_slice x (27 + ?n) (36 + ?n) (take 9 pdf)"
  have lx: "length x = length f1" by (simp add: x_def)
  have "27 + ?n + length (take 9 pdf) \<le> length y"
    unfolding y_def using lt lx by (intro length_set_slice_ge) simp
  then have ly: "22 \<le> length y" by simp
  have "take 22 f = take 22 y"
    unfolding f x_def [symmetric] y_def [symmetric] using ly by (intro take_set_slice) auto
  also have "\<dots> = take 22 x"
    unfolding y_def using lx assms(2) by (intro take_set_slice) auto
  also have "\<dots> = take 22 f1"
    by (simp add: x_def)
  finally show "take 22 f = take 22 f1" .
  have "min (36 + ?n + ?n) (length y) \<le> length f"
    unfolding f x_def [symmetric] y_def [symmetric] by (rule length_set_slice_ge_min)
  with ly show "22 \<le> length f" by simp
qed

lemma build_skip_atom_Inr:
  assumes "build_skip_atom png html = Inr s" and "encode_utf8 html = Inr hb"
  shows "\<exists>sf. number_to_4b_be (length hb + length png + 8) = Inr sf \<and> length sf = 4
            \<and> s = sf @ ''skip'' @ hb @ png"
proof -
  have e: "(if html \<noteq> [] then encode_utf8 html else Inr []) = Inr hb"
    using assms(2) by (cases "html = []") auto
  from assms(1) e obtain sf where sf: "number_to_4b_be (length (hb @ png) + 8) = Inr sf"
    and s: "s = (sf @ ''skip'') @ hb @ png"
    by (auto simp: build_skip_atom_def Let_def split: sum.splits)
  from sf have "length sf = 4" by (rule length_number_to_4b_be)
  with sf s show ?thesis by simp
qed

lemma run_layout:
  assumes "main inp = Some (Inr r)"
  shows "\<exists>hb sf. encode_utf8 (html_markup (html_file inp)) = Inr hb
           \<and> length sf = 4
           \<and> skip_atom r = sf @ ''skip'' @ hb @ png_file inp
           \<and> from_bytes_le (get_slice (ftyp_buffer r) 18 22) = 288 + 8 + length hb
           \<and> 22 \<le> length (ftyp_buffer r)
           \<and> (case pdf_file inp of
                 None \<Rightarrow> length (ftyp_buffer r) = max 288 (26 + length (extra_bytes_of inp))
               | Some pdf_bytes \<Rightarrow> 26 + length (extra_bytes_of inp) < 288)"
proof -
  from assemble_Inr [OF main_Inr(1) [OF assms]] obtain f0 hb f1 where
    f0: "ftyp_init (length (png_file inp)) = Inr f0" and
    s: "build_skip_atom (png_file inp) (html_markup (html_file inp)) = Inr (skip_atom r)" and
    hb: "encode_utf8 (html_markup (html_file inp)) = Inr hb" and
    f1: "header_fields f0 (length f0 + length (get_slice (skip_atom r) 0 8) + length hb)
           (extra_bytes_of inp) = Inr f1" and
    f: "(case pdf_file inp of
               None \<Rightarrow> ftyp_buffer r = f1
             | Some pdf_bytes \<Rightarrow>
                 splice_pdf f1 pdf_bytes (extra_bytes_of inp)
                   (length f1 + length (skip_atom r) + length (rest_bytes r)) = Some (Inr (ftyp_buffer r)))"
    by blast
  from build_skip_atom_Inr [OF s hb] obtain sf where
    sf: "length sf = 4" and sk: "skip_atom r = sf @ ''skip'' @ hb @ png_file inp"
    by blast
  have l0: "length f0 = 288" using f0 by (rule length_ftyp_init)
  have g8: "length (get_slice (skip_atom r) 0 8) = 8"
    by (simp add: sk sf get_slice_def)
  have l1: "length f1 = max 288 (26 + length (extra_bytes_of inp))"
    using f1 l0 by (rule header_fields_Inr(1))
  have v1: "from_bytes_le (get_slice f1 18 22) = 288 + 8 + length hb"
    using header_fields_Inr(2) [OF f1 l0] by (simp add: l0 g8)
  have "from_bytes_le (get_slice (ftyp_buffer r) 18 22) = 288 + 8 + length hb
           \<and> 22 \<le> length (ftyp_buffer r)
           \<and> (case pdf_file inp of
                 None \<Rightarrow> length (ftyp_buffer r) = max 288 (26 + length (extra_bytes_of inp))
               | Some pdf_bytes \<Rightarrow> 26 + length (extra_bytes_of inp) < 288)"
  proof (cases "pdf_file inp")
    case None
    with f have "ftyp_buffer r = f1" by simp
    with None l1 v1 show ?thesis by simp
  next
    case (Some pdf_bytes)
    with f have sp: "splice_pdf f1 pdf_bytes (extra_bytes_of inp)
                   (length f1 + length (skip_atom r) + length (rest_bytes r)) = Some (Inr (ftyp_buffer r))"
      by simp
    have "22 \<le> length f1" using l1 by simp
    from splice_pdf_keeps_fields [OF sp this]
    have t: "take 22 (ftyp_buffer r) = take 22 f1" and l: "22 \<le> length (ftyp_buffer r)" .
    have lt: "26 + length (extra_bytes_of inp) < 288"
      using splice_pdf_Inr(1) [OF sp] l1 by (simp add: max_def split: if_splits)
    from t v1 l lt Some show ?thesis by (simp add: get_slice_def)
  qed
  with hb sf sk show ?thesis by blast
qed

lemma out_layout:
  assumes "main inp = Some (Inr r)"
  shows "\<exists>hb sf sfx. encode_utf8 (html_markup (html_file inp)) = Inr hb
           \<and> length sf = 4
           \<and> skip_atom r = sf @ ''skip'' @ hb @ png_file inp
           \<and> zeroed r = (final_mp4 r)[3 := NUL]
           \<and> out_file r = (ftyp_buffer r)[3 := NUL] @ sf @ ''skip'' @ hb @ png_file inp
                              @ rest_bytes r @ sfx
           \<and> from_bytes_le (get_slice (ftyp_buffer r) 18 22) = 288 + 8 + length hb
           \<and> 22 \<le> length (ftyp_buffer r)"
proof -
  from run_layout [OF assms] obtain hb sf where
    hb: "encode_utf8 (html_markup (html_file inp)) = Inr hb" and sf: "length sf = 4" and
    sk: "skip_atom r = sf @ ''skip'' @ hb @ png_file inp" and
    v: "from_bytes_le (get_slice (ftyp_buffer r) 18 22) = 288 + 8 + length hb" and
    l: "22 \<le> length (ftyp_buffer r)"
    by blast
  note m = main_Inr [OF assms]
  have z: "zeroed r = (final_mp4 r)[3 := NUL]"
    using l by (simp add: m(3) m(2) write_at_3)
  obtain sfx0 where o: "out_file r = (zeroed r @ (case pdf_buffer r of None \<Rightarrow> [] | Some b \<Rightarrow> b)) @ sfx0"
    using append_tails_prefix [of "zeroed r @ (case pdf_buffer r of None \<Rightarrow> [] | Some b \<Rightarrow> b)"
        "appendable_files inp" "merged_zip inp"]
    by (auto simp: m(6))
  have "zeroed r = (ftyp_buffer r)[3 := NUL] @ sf @ ''skip'' @ hb @ png_file inp @ rest_bytes r"
    using l by (simp add: z m(2) sk list_update_append1)
  then have "out_file r = (ftyp_buffer r)[3 := NUL] @ sf @ ''skip'' @ hb @ png_file inp
                              @ rest_bytes r @ ((case pdf_buffer r of None \<Rightarrow> [] | Some b \<Rightarrow> b) @ sfx0)"
    by (simp add: o)
  with hb sf sk z v l show ?thesis by blast
qed

lemma main_no_pdf_completes:
  assumes "pdf_file inp = None"
    and "encode_utf8 (html_markup (html_file inp)) = Inr hb"
    and "length hb + length (png_file inp) + 8 < 2 ^ 32"
    and "length hb + 296 < 2 ^ 32"
  shows "\<exists>r. main inp = Some (Inr r)"
proof -
  have "length (png_file inp) < 2 ^ 32" using assms(3) by simp
  then obtain f0 where f0: "ftyp_init (length (png_file inp)) = Inr f0"
    by (simp add: ftyp_init_def number_to_4b_le_def Let_def)
  have l0: "length f0 = 288" using f0 by (rule length_ftyp_init)
  have e: "(if html_markup (html_file inp) \<noteq> [] then encode_utf8 (html_markup (html_file inp)) else Inr []) = Inr hb"
    using assms(2) by (cases "html_markup (html_file inp) = []") auto
  obtain s where s: "build_skip_atom (png_file inp) (html_markup (html_file inp)) = Inr s"
    using assms(3) by (simp add: build_skip_atom_def e Let_def number_to_4b_be_def)
  from build_skip_atom_Inr [OF s assms(2)] obtain sf where
    sf: "length sf = 4" and sk: "s = sf @ ''skip'' @ hb @ png_file inp" by blast
  have g8: "length (get_slice s 0 8) = 8" by (simp add: sk sf get_slice_def)
  obtain f1 where f1: "header_fields f0 (length f0 + length (get_slice s 0 8) + length hb)
      (extra_bytes_of inp) = Inr f1"
    using assms(4) by (simp add: header_fields_def l0 g8 number_to_4b_le_def Let_def)
  have "assemble inp = Some (Inr (f1, s, drop (from_bytes_be (get_slice (mp4_file inp) 0 4)) (mp4_file inp)))"
    using f0 s assms(1,2) f1 by (simp add: assemble_def Let_def)
  then show ?thesis by (simp add: main_def assms(1) Let_def)
qed

section \<open>The wrapper box\<close>

text \<open>
  C2. Whenever \<open>build_skip_atom\<close> returns a box, the box is the 4-byte big-endian size,
  the tag \<open>skip\<close> and the payload, the payload being the UTF-8 bytes of the hypertext
  (none for the empty text) followed by the image bytes, and the size field read back as a
  big-endian number is the payload length plus 8. The builder is a function of its two
  arguments only.
\<close>

theorem skip_atom_layout:
  assumes "build_skip_atom png_bytes html_string = Inr box"
  shows "\<exists>html_bytes. encode_utf8 html_string = Inr html_bytes
           \<and> drop 8 box = html_bytes @ png_bytes
           \<and> get_slice box 4 8 = ''skip''
           \<and> from_bytes_be (get_slice box 0 4) = length (drop 8 box) + 8
           \<and> length box = length html_bytes + length png_bytes + 8"
proof -
  obtain hb where hb: "(if html_string \<noteq> [] then encode_utf8 html_string else Inr []) = Inr hb"
    using assms by (auto simp: build_skip_atom_def split: sum.splits)
  then have enc: "encode_utf8 html_string = Inr hb"
    by (cases "html_string = []") auto
  obtain sf where sf: "number_to_4b_be (length (hb @ png_bytes) + 8) = Inr sf"
    and box: "box = (sf @ ''skip'') @ hb @ png_bytes"
    using assms hb by (auto simp: build_skip_atom_def Let_def split: sum.splits)
  have len: "length sf = 4" using sf by (rule length_number_to_4b_be)
  have val: "from_bytes_be sf = length (hb @ png_bytes) + 8"
    using sf by (rule from_bytes_be_number_to_4b_be)
  show ?thesis
    using enc box len val by (auto simp: get_slice_def)
qed

theorem skip_atom_layout_witness:
  "build_skip_atom [CHR 0x89, CHR ''P''] (literal ''hi'') =
      Inr ([NUL, NUL, NUL, CHR 0x0C] @ ''skip'' @ ''hi'' @ [CHR 0x89, CHR ''P''])
   \<and> (\<exists>html_bytes. encode_utf8 (literal ''hi'') = Inr html_bytes
         \<and> drop 8 ([NUL, NUL, NUL, CHR 0x0C] @ ''skip'' @ ''hi'' @ [CHR 0x89, CHR ''P''])
             = html_bytes @ [CHR 0x89, CHR ''P'']
         \<and> get_slice ([NUL, NUL, NUL, CHR 0x0C] @ ''skip'' @ ''hi'' @ [CHR 0x89, CHR ''P'']) 4 8 = ''skip''
         \<and> from_bytes_be (get_slice ([NUL, NUL, NUL, CHR 0x0C] @ ''skip'' @ ''hi'' @ [CHR 0x89, CHR ''P'']) 0 4)
             = length (drop 8 ([NUL, NUL, NUL, CHR 0x0C] @ ''skip'' @ ''hi'' @ [CHR 0x89, CHR ''P''])) + 8
         \<and> length ([NUL, NUL, NUL, CHR 0x0C] @ ''skip'' @ ''hi'' @ [CHR 0x89, CHR ''P''])
             = length html_bytes + length [CHR 0x89, CHR ''P''] + 8)"
proof -
  have run: "build_skip_atom [CHR 0x89, CHR ''P''] (literal ''hi'') =
      Inr ([NUL, NUL, NUL, CHR 0x0C] @ ''skip'' @ ''hi'' @ [CHR 0x89, CHR ''P''])"
    by (simp add: build_skip_atom_def literal_def utf8_char_def number_to_4b_be_def NUL_def
        char_of_def bit_Suc_0_iff)
  show ?thesis
    using skip_atom_layout [OF run] run by simp
qed

lemma field_of_out_file:
  assumes "out = h[3 := c] @ sfx" and "22 \<le> length h"
  shows "get_slice out 18 22 = get_slice h 18 22"
  using assms by (simp add: get_slice_def take_update_swap drop_update_cancel)

lemma sample_plain_completes: "\<exists>r. main sample_plain = Some (Inr r)"
  by (rule main_no_pdf_completes [where hb = "[]"])
     (simp_all add: sample_plain_def html_markup_def)

lemma sample_short_container_completes: "\<exists>r. main sample_short_container = Some (Inr r)"
  by (rule main_no_pdf_completes [where hb = "[]"])
     (simp_all add: sample_short_container_def sample_plain_def html_markup_def)

lemma sample_long_extra_completes: "\<exists>r. main sample_long_extra = Some (Inr r)"
  by (rule main_no_pdf_completes [where hb = "[]"])
     (simp_all add: sample_long_extra_def sample_plain_def html_markup_def)

text \<open>
  C9. In every completed run the file written at line 163 has more than three bytes, the
  store of lines 164-166 turns it into the same bytes with byte 3 set to zero, and what is
  appended afterwards leaves these bytes in place.
\<close>

theorem post_write_zero_byte:
  assumes "main inp = Some (Inr r)"
  shows "3 < length (final_mp4 r) \<and> zeroed r = (final_mp4 r)[3 := NUL]
         \<and> take (length (final_mp4 r)) (out_file r) = zeroed r"
proof -
  from out_layout [OF assms] obtain hb sf sfx where
    z: "zeroed r = (final_mp4 r)[3 := NUL]" and
    sk: "skip_atom r = sf @ ''skip'' @ hb @ png_file inp" and
    o: "out_file r = (ftyp_buffer r)[3 := NUL] @ sf @ ''skip'' @ hb @ png_file inp
                              @ rest_bytes r @ sfx" and
    l: "22 \<le> length (ftyp_buffer r)"
    by blast
  have f: "final_mp4 r = ftyp_buffer r @ skip_atom r @ rest_bytes r"
    using assms by (rule main_Inr(2))
  have "out_file r = zeroed r @ sfx"
    using l by (simp add: z f sk o list_update_append1)
  then have "take (length (final_mp4 r)) (out_file r) = zeroed r"
    by (simp add: z)
  with z l f show ?thesis by simp
qed

theorem post_write_zero_byte_witness:
  "\<exists>r. main sample_plain = Some (Inr r) \<and> 3 < length (final_mp4 r)
         \<and> zeroed r = (final_mp4 r)[3 := NUL]
         \<and> take (length (final_mp4 r)) (out_file r) = zeroed r"
proof -
  from sample_plain_completes obtain r where r: "main sample_plain = Some (Inr r)" ..
  from post_write_zero_byte [OF r] r show ?thesis by blast
qed

text \<open>
  C3 (as amended). In every completed run the media file is the header region, the wrapper
  box and the remainder of the transcoded container, the remainder being the container
  without its first \<open>n\<close> bytes, \<open>n\<close> the big-endian number in its first four bytes. No
  check compares \<open>n\<close> with the length of the container: when \<open>n\<close> is larger, the
  remainder is empty and the run goes on.
\<close>

theorem reassembled_container:
  assumes "main inp = Some (Inr r)"
  shows "final_mp4 r = ftyp_buffer r @ skip_atom r @ rest_bytes r
         \<and> rest_bytes r = drop (from_bytes_be (get_slice (mp4_file inp) 0 4)) (mp4_file inp)"
  using main_Inr(2) [OF assms] assemble_Inr [OF main_Inr(1) [OF assms]] by blast

theorem reassembled_container_witness:
  "\<exists>r. main sample_plain = Some (Inr r)
       \<and> final_mp4 r = ftyp_buffer r @ skip_atom r @ rest_bytes r
       \<and> rest_bytes r = drop (from_bytes_be (get_slice (mp4_file sample_plain) 0 4)) (mp4_file sample_plain)
       \<and> rest_bytes r = ''moov''"
proof -
  from sample_plain_completes obtain r where r: "main sample_plain = Some (Inr r)" ..
  have "drop (from_bytes_be (get_slice (mp4_file sample_plain) 0 4)) (mp4_file sample_plain) = ''moov''"
    by (simp add: sample_plain_def get_slice_def from_bytes_be_def NUL_def)
  with reassembled_container [OF r] r show ?thesis by auto
qed

theorem truncated_container_counterexample:
  "(case main sample_short_container of
      Some (Inr r) \<Rightarrow>
        length (mp4_file sample_short_container)
          < from_bytes_be (get_slice (mp4_file sample_short_container) 0 4)
        \<and> rest_bytes r = []
    | _ \<Rightarrow> False)"
proof -
  from sample_short_container_completes obtain r
    where r: "main sample_short_container = Some (Inr r)" ..
  have n: "from_bytes_be (get_slice (mp4_file sample_short_container) 0 4) = 8"
    by (simp add: sample_short_container_def sample_plain_def get_slice_def from_bytes_be_def NUL_def)
  have "rest_bytes r = drop (from_bytes_be (get_slice (mp4_file sample_short_container) 0 4))
                        (mp4_file sample_short_container)"
    using assemble_Inr [OF main_Inr(1) [OF r]] by blast
  then have "rest_bytes r = []"
    unfolding n by (simp add: sample_short_container_def sample_plain_def)
  moreover have "length (mp4_file sample_short_container) < 8"
    by (simp add: sample_short_container_def sample_plain_def)
  ultimately show ?thesis by (simp add: r n)
qed

text \<open>
  C1 (as amended). In every completed run whose header region has kept its 288 bytes, the
  little-endian number at bytes 18-21 of the output file is 288 + 8 + the length of the
  UTF-8 hypertext bytes, and the image bytes stand in the output file from exactly that
  position on.
\<close>

theorem image_offset_field:
  assumes "main inp = Some (Inr r)" and "length (ftyp_buffer r) = 288"
  shows "\<exists>hb. encode_utf8 (html_markup (html_file inp)) = Inr hb
           \<and> from_bytes_le (get_slice (out_file r) 18 22) = length (ftyp_buffer r) + 8 + length hb
           \<and> take (length (png_file inp))
                (drop (from_bytes_le (get_slice (out_file r) 18 22)) (out_file r)) = png_file inp"
proof -
  from out_layout [OF assms(1)] obtain hb sf sfx where
    hb: "encode_utf8 (html_markup (html_file inp)) = Inr hb" and sf: "length sf = 4" and
    o: "out_file r = (ftyp_buffer r)[3 := NUL] @ sf @ ''skip'' @ hb @ png_file inp
                              @ rest_bytes r @ sfx" and
    v: "from_bytes_le (get_slice (ftyp_buffer r) 18 22) = 288 + 8 + length hb" and
    l: "22 \<le> length (ftyp_buffer r)"
    by blast
  have fld: "from_bytes_le (get_slice (out_file r) 18 22) = 288 + 8 + length hb"
    using field_of_out_file [OF o l] v by simp
  define pre where "pre = (ftyp_buffer r)[3 := NUL] @ sf @ ''skip'' @ hb"
  have lp: "length pre = 288 + 8 + length hb" by (simp add: pre_def assms(2) sf)
  have "out_file r = pre @ png_file inp @ rest_bytes r @ sfx" by (simp add: pre_def o)
  then have "drop (288 + 8 + length hb) (out_file r) = png_file inp @ rest_bytes r @ sfx"
    using lp by simp
  with hb fld assms(2) show ?thesis by simp
qed

theorem image_offset_field_witness:
  "\<exists>r. main sample_plain = Some (Inr r) \<and> length (ftyp_buffer r) = 288
       \<and> from_bytes_le (get_slice (out_file r) 18 22) = 296
       \<and> take 3 (drop 296 (out_file r)) = ''PNG''"
proof -
  from sample_plain_completes obtain r where r: "main sample_plain = Some (Inr r)" ..
  have l: "length (ftyp_buffer r) = 288"
    using run_layout [OF r] by (auto simp: sample_plain_def extra_bytes_of_def)
  have e: "encode_utf8 (html_markup (html_file sample_plain)) = Inr []"
    by (simp add: sample_plain_def html_markup_def)
  from image_offset_field [OF r l] e l
  have "from_bytes_le (get_slice (out_file r) 18 22) = 296
        \<and> take (length (png_file sample_plain)) (drop (from_bytes_le (get_slice (out_file r) 18 22)) (out_file r))
           = png_file sample_plain"
    by auto
  moreover have "png_file sample_plain = ''PNG''" by (simp add: sample_plain_def)
  ultimately show ?thesis using r l by (auto simp: numeral_3_eq_3)
qed

theorem image_offset_field_counterexample:
  "(case main sample_long_extra of
      Some (Inr r) \<Rightarrow>
        from_bytes_le (get_slice (out_file r) 18 22) = 296
        \<and> length (ftyp_buffer r) = 289
        \<and> take 3 (drop 296 (out_file r)) \<noteq> png_file sample_long_extra
        \<and> take 3 (drop 297 (out_file r)) = png_file sample_long_extra
    | _ \<Rightarrow> False)"
proof -
  from sample_long_extra_completes obtain r where r: "main sample_long_extra = Some (Inr r)" ..
  have l: "length (ftyp_buffer r) = 289"
    using run_layout [OF r] by (auto simp: sample_long_extra_def sample_plain_def extra_bytes_of_def)
  have e: "encode_utf8 (html_markup (html_file sample_long_extra)) = Inr []"
    by (simp add: sample_long_extra_def sample_plain_def html_markup_def)
  from out_layout [OF r] e obtain sf sfx where
    sf: "length sf = 4" and
    o: "out_file r = (ftyp_buffer r)[3 := NUL] @ sf @ ''skip'' @ png_file sample_long_extra
                              @ rest_bytes r @ sfx" and
    v: "from_bytes_le (get_slice (ftyp_buffer r) 18 22) = 296" and
    l22: "22 \<le> length (ftyp_buffer r)"
    by auto
  have fld: "from_bytes_le (get_slice (out_file r) 18 22) = 296"
    using field_of_out_file [OF o l22] v by simp
  have p: "png_file sample_long_extra = ''PNG''"
    by (simp add: sample_long_extra_def sample_plain_def)
  define pre where "pre = (ftyp_buffer r)[3 := NUL] @ take 3 sf"
  have lp: "length pre = 292" by (simp add: pre_def l sf)
  define t where "t = drop 3 sf"
  have "length t = Suc 0" using sf by (simp add: t_def)
  then obtain d where "t = [d]" by (cases t) auto
  then have d: "drop 3 sf = [d]" by (simp add: t_def)
  have "sf = take 3 sf @ [d]" using d by (metis append_take_drop_id)
  then have o': "out_file r = pre @ [d] @ ''skip'' @ ''PNG'' @ rest_bytes r @ sfx"
    unfolding pre_def o p by (metis append.assoc)
  have d7: "drop 296 (out_file r) = ''p'' @ ''PNG'' @ rest_bytes r @ sfx"
    unfolding o' using lp by simp
  have d8: "drop 297 (out_file r) = ''PNG'' @ rest_bytes r @ sfx"
    unfolding o' using lp by simp
  have "take 3 (drop 296 (out_file r)) \<noteq> png_file sample_long_extra"
    by (simp add: d7 p)
  moreover have "take 3 (drop 297 (out_file r)) = png_file sample_long_extra"
    by (simp add: d8 p)
  ultimately show ?thesis using fld l by (simp add: r)
qed

lemma length_obj_string: "length (obj_string l) = 29 + length (py_str l)"
  by (simp add: obj_string_def)

lemma splice_pdf_length:
  assumes "splice_pdf f1 pdf extra m = Some (Inr f)" and "length f1 = 288"
    and "9 \<le> length pdf"
    and "36 + 2 * length extra + 29 + length (py_str (int m)) \<le> 288"
  shows "length f = 288"
proof -
  let ?n = "length extra"
  from splice_pdf_Inr(2) [OF assms(1)] obtain res where
    res: "fit_obj_string (int m) (int (36 + ?n)) (int ?n) (30 + int (length (py_str (int m)))) = Some res" and
    f: "f = set_slice (set_slice (f1[26 + ?n := NL]) (27 + ?n) (36 + ?n) (take 9 pdf))
              (36 + ?n + ?n) (36 + ?n + ?n + length (snd res)) (snd res)"
    by auto
  from fit_obj_string_Some [OF res]
  have "fst res < 30 + int (length (py_str (int m)))" and "exact_fit (int m) (int (36 + ?n)) (int ?n) (fst res)"
    and "snd res = obj_string (int m - int (36 + ?n) - int ?n - fst res)"
    by blast+
  then have "int (length (snd res)) < 30 + int (length (py_str (int m)))"
    by (simp add: exact_fit_def)
  then have lo: "length (snd res) \<le> 29 + length (py_str (int m))" by simp
  define y where "y = set_slice (f1[26 + ?n := NL]) (27 + ?n) (36 + ?n) (take 9 pdf)"
  have ly: "length y = 288"
    unfolding y_def using assms(2,3,4) by (intro trans [OF length_set_slice_fit]) auto
  show ?thesis
    unfolding f y_def [symmetric] using ly lo assms(4)
    by (intro trans [OF length_set_slice_fit]) auto
qed

lemma run_steps:
  assumes "main inp = Some (Inr r)"
  shows "\<exists>f0 hb f1.
      ftyp_init (length (png_file inp)) = Inr f0
    \<and> encode_utf8 (html_markup (html_file inp)) = Inr hb
    \<and> header_fields f0 (length f0 + length (get_slice (skip_atom r) 0 8) + length hb)
           (extra_bytes_of inp) = Inr f1
    \<and> (pdf_file inp = None \<longrightarrow> ftyp_buffer r = f1)
    \<and> (\<forall>p. pdf_file inp = Some p \<longrightarrow>
          splice_pdf f1 p (extra_bytes_of inp)
            (length f1 + length (skip_atom r) + length (rest_bytes r)) = Some (Inr (ftyp_buffer r)))"
proof -
  from assemble_Inr [OF main_Inr(1) [OF assms]] obtain f0 hb f1 where
    f0: "ftyp_init (length (png_file inp)) = Inr f0" and
    s: "build_skip_atom (png_file inp) (html_markup (html_file inp)) = Inr (skip_atom r)" and
    hb: "encode_utf8 (html_markup (html_file inp)) = Inr hb" and
    rs: "rest_bytes r = drop (from_bytes_be (get_slice (mp4_file inp) 0 4)) (mp4_file inp)" and
    f1: "header_fields f0 (length f0 + length (get_slice (skip_atom r) 0 8) + length hb)
           (extra_bytes_of inp) = Inr f1" and
    c: "(case pdf_file inp of
               None \<Rightarrow> ftyp_buffer r = f1
             | Some pdf_bytes \<Rightarrow>
                 splice_pdf f1 pdf_bytes (extra_bytes_of inp)
                   (length f1 + length (skip_atom r) + length (rest_bytes r)) = Some (Inr (ftyp_buffer r)))"
    by blast
  have a: "ftyp_buffer r = f1" if "pdf_file inp = None"
    using c by (simp only: that option.case)
  have b: "splice_pdf f1 p (extra_bytes_of inp)
          (length f1 + length (skip_atom r) + length (rest_bytes r)) = Some (Inr (ftyp_buffer r))"
    if "pdf_file inp = Some p" for p
    using c by (simp only: that option.case)
  show ?thesis
    by (rule exI [of _ f0], rule exI [of _ hb], rule exI [of _ f1]) (simp add: f0 hb f1 a b)
qed

lemma header_288:
  assumes "main inp = Some (Inr r)" and "splices_fit inp r"
  shows "length (ftyp_buffer r) = 288"
proof (cases "pdf_file inp")
  case None
  with run_layout [OF assms(1)] assms(2) show ?thesis
    by (auto simp: splices_fit_def)
next
  case (Some pdf_bytes)
  from run_steps [OF assms(1)] obtain f0 hb f1 where
    f0: "ftyp_init (length (png_file inp)) = Inr f0" and
    "encode_utf8 (html_markup (html_file inp)) = Inr hb" and
    f1: "header_fields f0 (length f0 + length (get_slice (skip_atom r) 0 8) + length hb)
           (extra_bytes_of inp) = Inr f1" and
    "pdf_file inp = None \<longrightarrow> ftyp_buffer r = f1" and
    sp0: "\<forall>p. pdf_file inp = Some p \<longrightarrow>
          splice_pdf f1 p (extra_bytes_of inp)
            (length f1 + length (skip_atom r) + length (rest_bytes r)) = Some (Inr (ftyp_buffer r))"
    by (elim exE conjE) (rule that)
  have sp: "splice_pdf f1 pdf_bytes (extra_bytes_of inp)
          (length f1 + length (skip_atom r) + length (rest_bytes r)) = Some (Inr (ftyp_buffer r))"
    using sp0 [rule_format, OF Some] .
  have "length f1 = max 288 (26 + length (extra_bytes_of inp))"
    using f1 length_ftyp_init [OF f0] by (rule header_fields_Inr(1))
  moreover have "26 + length (extra_bytes_of inp) < 288"
    using run_layout [OF assms(1)] by (auto simp: Some)
  ultimately have l1: "length f1 = 288" by simp
  have c1: "9 \<le> length pdf_bytes" and
    c2: "36 + 2 * length (extra_bytes_of inp) + 29
              + length (py_str (int (288 + length (skip_atom r) + length (rest_bytes r)))) \<le> 288"
    using assms(2) by (simp_all add: splices_fit_def Some)
  from sp have sp': "splice_pdf f1 pdf_bytes (extra_bytes_of inp)
           (288 + length (skip_atom r) + length (rest_bytes r)) = Some (Inr (ftyp_buffer r))"
    by (simp only: l1)
  from sp' l1 c1 c2 show ?thesis by (rule splice_pdf_length)
qed

lemma digits_nonempty: "0 < length (digits n)"
  by (subst digits.simps) simp

lemma length_digits_gt: "10 ^ k \<le> n \<Longrightarrow> k < length (digits n)"
proof (induction k arbitrary: n)
  case 0
  show ?case by (rule digits_nonempty)
next
  case (Suc k)
  then have a: "10 * 10 ^ k \<le> n" by simp
  have "10 * 1 \<le> 10 * (10::nat) ^ k" by (rule mult_le_mono2) simp
  with a have b: "\<not> n < 10" by linarith
  have "(10 * 10 ^ k) div 10 \<le> n div 10" using a by (rule div_le_mono)
  then have "10 ^ k \<le> n div 10" by simp
  note this b
  from Suc.IH [OF this(1)] this(2) show ?case
    by (subst digits.simps) simp
qed

lemma length_digits_le: "n < 10 ^ Suc k \<Longrightarrow> length (digits n) \<le> Suc k"
proof (induction k arbitrary: n)
  case 0
  then show ?case by (subst digits.simps) simp
next
  case (Suc k)
  show ?case
  proof (cases "n < 10")
    case True
    then show ?thesis by (subst digits.simps) simp
  next
    case False
    have "n div 10 < 10 ^ Suc k" using Suc.prems by (simp add: less_mult_imp_div_less)
    from Suc.IH [OF this] False show ?thesis by (subst digits.simps) simp
  qed
qed

lemma splice_pdf_fit:
  assumes "26 + length extra < length f1"
  shows "splice_pdf f1 p extra m =
     (case fit_obj_string (int m) (int (36 + length extra)) (int (length extra))
             (30 + int (length (py_str (int m)))) of
        None \<Rightarrow> None
      | Some res \<Rightarrow>
          Some (Inr (set_slice (set_slice (f1[26 + length extra := NL]) (27 + length extra)
                     (36 + length extra) (take 9 p))
                   (36 + length extra + length extra)
                   (36 + length extra + length extra + length (snd res)) (snd res))))"
proof -
  have b: "set_byte f1 (22 + length extra + 4) NL = Inr (f1[26 + length extra := NL])"
    using assms by (simp add: set_byte_def add.commute add.left_commute)
  have e: "int (22 + length extra + 4 + 10) = int (36 + length extra)" by simp
  show ?thesis
    unfolding splice_pdf_def Let_def b e
    by (cases "fit_obj_string (int m) (int (36 + length extra)) (int (length extra))
             (30 + int (length (py_str (int m))))")
       (auto simp: add.commute add.left_commute split: prod.splits)
qed

lemma main_pdf_outcome:
  assumes "pdf_file inp = Some p"
    and "encode_utf8 (html_markup (html_file inp)) = Inr hb"
    and "length hb + length (png_file inp) + 8 < 2 ^ 32"
    and "length hb + 296 < 2 ^ 32"
    and "26 + length (extra_bytes_of inp) < 288"
    and "m = 288 + (length hb + length (png_file inp) + 8)
               + length (drop (from_bytes_be (get_slice (mp4_file inp) 0 4)) (mp4_file inp))"
  shows "main inp =
     (case fit_obj_string (int m) (int (36 + length (extra_bytes_of inp)))
             (int (length (extra_bytes_of inp))) (30 + int (length (py_str (int m)))) of
        None \<Rightarrow> None
      | Some res \<Rightarrow> main inp)"
    and "fit_obj_string (int m) (int (36 + length (extra_bytes_of inp)))
             (int (length (extra_bytes_of inp))) (30 + int (length (py_str (int m)))) \<noteq> None
         \<Longrightarrow> \<exists>r. main inp = Some (Inr r)"
proof -
  have "length (png_file inp) < 2 ^ 32" using assms(3) by simp
  then obtain f0 where f0: "ftyp_init (length (png_file inp)) = Inr f0"
    by (simp add: ftyp_init_def number_to_4b_le_def Let_def)
  have l0: "length f0 = 288" using f0 by (rule length_ftyp_init)
  have e: "(if html_markup (html_file inp) \<noteq> [] then encode_utf8 (html_markup (html_file inp)) else Inr []) = Inr hb"
    using assms(2) by (cases "html_markup (html_file inp) = []") auto
  obtain s where s: "build_skip_atom (png_file inp) (html_markup (html_file inp)) = Inr s"
    using assms(3) by (simp add: build_skip_atom_def e Let_def number_to_4b_be_def)
  from build_skip_atom_Inr [OF s assms(2)] obtain sf where
    sf: "length sf = 4" and sk: "s = sf @ ''skip'' @ hb @ png_file inp" by blast
  have g8: "length (get_slice s 0 8) = 8" by (simp add: sk sf get_slice_def)
  have ls: "length s = length hb + length (png_file inp) + 8" by (simp add: sk sf)
  obtain f1 where f1: "header_fields f0 (length f0 + length (get_slice s 0 8) + length hb)
      (extra_bytes_of inp) = Inr f1"
    using assms(4) by (simp add: header_fields_def l0 g8 number_to_4b_le_def Let_def)
  have l1: "length f1 = 288"
    using header_fields_Inr(1) [OF f1 l0] assms(5) by simp
  let ?rest = "drop (from_bytes_be (get_slice (mp4_file inp) 0 4)) (mp4_file inp)"
  have m: "length f1 + length s + length ?rest = m"
    by (simp only: l1 ls assms(6))
  have "assemble inp =
      (case splice_pdf f1 p (extra_bytes_of inp) (length f1 + length s + length ?rest) of
         None \<Rightarrow> None
       | Some (Inl e) \<Rightarrow> Some (Inl e)
       | Some (Inr ftyp2) \<Rightarrow> Some (Inr (ftyp2, s, ?rest)))"
    using f0 s assms(1,2) f1 by (simp add: assemble_def Let_def del: length_drop)
  then have a: "assemble inp =
      (case splice_pdf f1 p (extra_bytes_of inp) m of
         None \<Rightarrow> None
       | Some (Inl e) \<Rightarrow> Some (Inl e)
       | Some (Inr ftyp2) \<Rightarrow> Some (Inr (ftyp2, s, ?rest)))"
    unfolding m .
  have sp: "splice_pdf f1 p (extra_bytes_of inp) m =
     (case fit_obj_string (int m) (int (36 + length (extra_bytes_of inp)))
             (int (length (extra_bytes_of inp))) (30 + int (length (py_str (int m)))) of
        None \<Rightarrow> None
      | Some res \<Rightarrow>
          Some (Inr (set_slice (set_slice (f1[26 + length (extra_bytes_of inp) := NL])
                     (27 + length (extra_bytes_of inp)) (36 + length (extra_bytes_of inp)) (take 9 p))
                   (36 + length (extra_bytes_of inp) + length (extra_bytes_of inp))
                   (36 + length (extra_bytes_of inp) + length (extra_bytes_of inp) + length (snd res))
                   (snd res))))"
    using assms(5) l1 by (intro splice_pdf_fit) simp
  show "main inp =
     (case fit_obj_string (int m) (int (36 + length (extra_bytes_of inp)))
             (int (length (extra_bytes_of inp))) (30 + int (length (py_str (int m)))) of
        None \<Rightarrow> None
      | Some res \<Rightarrow> main inp)"
    by (cases "fit_obj_string (int m) (int (36 + length (extra_bytes_of inp)))
             (int (length (extra_bytes_of inp))) (30 + int (length (py_str (int m))))")
       (simp_all add: main_def a sp)
  show "\<exists>r. main inp = Some (Inr r)"
    if "fit_obj_string (int m) (int (36 + length (extra_bytes_of inp)))
             (int (length (extra_bytes_of inp))) (30 + int (length (py_str (int m)))) \<noteq> None"
    using that by (auto simp: main_def a sp Let_def assms(1) split: prod.splits)
qed

lemma encode_utf8_ascii:
  "\<forall>c\<in>set s. (of_char c :: nat) < 128 \<Longrightarrow> encode_utf8 (literal s) = Inr s"
  by (induction s) (auto simp: literal_def utf8_char_def)

lemma encode_html_prefix: "encode_utf8 (literal html_prefix) = Inr html_prefix"
  by (rule encode_utf8_ascii) (simp add: html_prefix_def)

lemma encode_html_suffix: "encode_utf8 (literal html_suffix) = Inr html_suffix"
  by (rule encode_utf8_ascii) (simp add: html_suffix_def)

lemma html_markup_bytes:
  assumes "encode_utf8 (html_markup (Some text)) = Inr hb"
  shows "\<exists>tb. encode_utf8 text = Inr tb \<and> hb = html_prefix @ tb @ html_suffix"
  using assms
  by (auto simp: html_markup_def encode_utf8_append encode_html_prefix encode_html_suffix
      split: sum.splits)

lemma length_html_prefix: "length html_prefix = 64"
  by (simp add: html_prefix_def)

lemma length_html_suffix: "length html_suffix = 10"
  by (simp add: html_suffix_def)

lemma sample_html_completes: "\<exists>r. main sample_html = Some (Inr r)"
  by (rule main_no_pdf_completes [where hb = "html_prefix @ ''<b>hi</b>'' @ html_suffix"])
     (simp_all add: sample_html_def sample_plain_def html_markup_def encode_utf8_append
        encode_html_prefix encode_html_suffix encode_utf8_ascii length_html_prefix
        length_html_suffix)

lemma sample_html_long_extra_completes: "\<exists>r. main sample_html_long_extra = Some (Inr r)"
  by (rule main_no_pdf_completes [where hb = "html_prefix @ ''<b>hi</b>'' @ html_suffix"])
     (simp_all add: sample_html_long_extra_def sample_long_extra_def sample_plain_def
        html_markup_def encode_utf8_append encode_html_prefix encode_html_suffix
        encode_utf8_ascii length_html_prefix length_html_suffix)

lemma main_pdf_index_error:
  assumes "pdf_file inp = Some p"
    and "encode_utf8 (html_markup (html_file inp)) = Inr hb"
    and "length hb + length (png_file inp) + 8 < 2 ^ 32"
    and "length hb + 296 < 2 ^ 32"
    and "262 \<le> length (extra_bytes_of inp)"
  shows "main inp = Some (Inl IndexError)"
proof -
  have "length (png_file inp) < 2 ^ 32" using assms(3) by simp
  then obtain f0 where f0: "ftyp_init (length (png_file inp)) = Inr f0"
    by (simp add: ftyp_init_def number_to_4b_le_def Let_def)
  have l0: "length f0 = 288" using f0 by (rule length_ftyp_init)
  have e: "(if html_markup (html_file inp) \<noteq> [] then encode_utf8 (html_markup (html_file inp)) else Inr []) = Inr hb"
    using assms(2) by (cases "html_markup (html_file inp) = []") auto
  obtain s where s: "build_skip_atom (png_file inp) (html_markup (html_file inp)) = Inr s"
    using assms(3) by (simp add: build_skip_atom_def e Let_def number_to_4b_be_def)
  from build_skip_atom_Inr [OF s assms(2)] obtain sf where
    sf: "length sf = 4" and sk: "s = sf @ ''skip'' @ hb @ png_file inp"
    by (elim exE conjE) (rule that)
  have g8: "length (get_slice s 0 8) = 8" by (simp add: sk sf get_slice_def)
  obtain f1 where f1: "header_fields f0 (length f0 + length (get_slice s 0 8) + length hb)
      (extra_bytes_of inp) = Inr f1"
    using assms(4) by (simp add: header_fields_def l0 g8 number_to_4b_le_def Let_def)
  have l1: "length f1 = 26 + length (extra_bytes_of inp)"
    using header_fields_Inr(1) [OF f1 l0] assms(5) by simp
  have sp: "splice_pdf f1 p (extra_bytes_of inp) m = Some (Inl IndexError)" for m
    by (simp add: splice_pdf_def set_byte_def l1 Let_def)
  have "assemble inp = Some (Inl IndexError)"
    using f0 s assms(1,2) f1 by (simp add: assemble_def Let_def sp del: length_drop)
  then show ?thesis by (simp add: main_def)
qed

lemma main_pdf_no_error:
  assumes "pdf_file inp = Some p"
    and "encode_utf8 (html_markup (html_file inp)) = Inr hb"
    and "length hb + length (png_file inp) + 8 < 2 ^ 32"
    and "length hb + 296 < 2 ^ 32"
    and "length (extra_bytes_of inp) < 262"
  shows "main inp \<noteq> Some (Inl e)"
proof -
  define m where "m = 288 + (length hb + length (png_file inp) + 8)
               + length (drop (from_bytes_be (get_slice (mp4_file inp) 0 4)) (mp4_file inp))"
  have n: "26 + length (extra_bytes_of inp) < 288" using assms(5) by simp
  note o = main_pdf_outcome [OF assms(1,2,3,4) n m_def]
  show ?thesis
  proof (cases "fit_obj_string (int m) (int (36 + length (extra_bytes_of inp)))
             (int (length (extra_bytes_of inp))) (30 + int (length (py_str (int m))))")
    case None
    with o(1) have "main inp = None" by simp
    then show ?thesis by simp
  next
    case (Some res)
    then have "\<exists>r. main inp = Some (Inr r)" by (intro o(2)) simp
    then show ?thesis by auto
  qed
qed

lemma sizes_fit_D:
  assumes "sizes_fit inp"
  shows "\<exists>hb. encode_utf8 (html_markup (html_file inp)) = Inr hb
            \<and> length hb + length (png_file inp) + 8 < 2 ^ 32 \<and> length hb + 296 < 2 ^ 32"
  using assms by (cases "encode_utf8 (html_markup (html_file inp))") (simp_all add: sizes_fit_def)

text \<open>
  C7 (as amended). In every completed run the header region has exactly 288 bytes whenever
  the spliced content fits (\<open>splices_fit\<close>). No check of the 288-byte budget exists. On
  inputs whose sizes fit their four-byte fields: without a document the run completes
  whatever the length of the extra bytes, and the region has
  \<open>max(288, 26 + len(extra_bytes))\<close> bytes; with a document, 262 or more extra bytes make
  the index store of line 146 raise IndexError, which leaves \<open>main\<close> before line 163
  writes the output file, and fewer extra bytes raise nothing.
\<close>

theorem header_region_size:
  "(\<forall>r. main inp = Some (Inr r) \<and> splices_fit inp r \<longrightarrow> length (ftyp_buffer r) = 288)
   \<and> (sizes_fit inp \<and> pdf_file inp = None \<longrightarrow>
        (\<exists>r. main inp = Some (Inr r)
            \<and> length (ftyp_buffer r) = max 288 (26 + length (extra_bytes_of inp))))
   \<and> (sizes_fit inp \<and> pdf_file inp \<noteq> None \<and> 262 \<le> length (extra_bytes_of inp) \<longrightarrow>
        main inp = Some (Inl IndexError))
   \<and> (sizes_fit inp \<and> pdf_file inp \<noteq> None \<and> length (extra_bytes_of inp) < 262 \<longrightarrow>
        (\<forall>e. main inp \<noteq> Some (Inl e)))"
proof -
  have A: "length (ftyp_buffer r) = 288" if "main inp = Some (Inr r) \<and> splices_fit inp r" for r
    using that header_288 by blast
  have B: "\<exists>r. main inp = Some (Inr r)
            \<and> length (ftyp_buffer r) = max 288 (26 + length (extra_bytes_of inp))"
    if "sizes_fit inp \<and> pdf_file inp = None"
  proof -
    from that sizes_fit_D obtain hb where
      "encode_utf8 (html_markup (html_file inp)) = Inr hb"
      "length hb + length (png_file inp) + 8 < 2 ^ 32" "length hb + 296 < 2 ^ 32"
      by blast
    with that main_no_pdf_completes [of inp hb] obtain r where r: "main inp = Some (Inr r)"
      by blast
    with run_layout [OF r] that show ?thesis by auto
  qed
  have C: "main inp = Some (Inl IndexError)"
    if "sizes_fit inp \<and> pdf_file inp \<noteq> None \<and> 262 \<le> length (extra_bytes_of inp)"
  proof -
    from that sizes_fit_D obtain hb where
      h: "encode_utf8 (html_markup (html_file inp)) = Inr hb"
      "length hb + length (png_file inp) + 8 < 2 ^ 32" "length hb + 296 < 2 ^ 32"
      by blast
    from that obtain p where "pdf_file inp = Some p" by auto
    from this h show ?thesis by (rule main_pdf_index_error) (use that in simp)
  qed
  have D: "main inp \<noteq> Some (Inl e)"
    if "sizes_fit inp \<and> pdf_file inp \<noteq> None \<and> length (extra_bytes_of inp) < 262" for e
  proof -
    from that sizes_fit_D obtain hb where
      h: "encode_utf8 (html_markup (html_file inp)) = Inr hb"
      "length hb + length (png_file inp) + 8 < 2 ^ 32" "length hb + 296 < 2 ^ 32"
      by blast
    from that obtain p where "pdf_file inp = Some p" by auto
    from this h show ?thesis by (rule main_pdf_no_error) (use that in simp)
  qed
  from A B C D show ?thesis by blast
qed

theorem header_region_size_witness:
  "(\<exists>r. main sample_plain = Some (Inr r) \<and> splices_fit sample_plain r
        \<and> length (ftyp_buffer r) = 288)
   \<and> sizes_fit sample_long_extra \<and> pdf_file sample_long_extra = None
   \<and> (\<exists>r. main sample_long_extra = Some (Inr r) \<and> length (ftyp_buffer r) = 289)
   \<and> sizes_fit sample_pdf_long_extra \<and> pdf_file sample_pdf_long_extra \<noteq> None
   \<and> length (extra_bytes_of sample_pdf_long_extra) = 262
   \<and> main sample_pdf_long_extra = Some (Inl IndexError)
   \<and> sizes_fit sample_pdf \<and> pdf_file sample_pdf \<noteq> None
   \<and> length (extra_bytes_of sample_pdf) = 0
   \<and> main sample_pdf \<noteq> Some (Inl IndexError)"
proof -
  from sample_plain_completes obtain r where r: "main sample_plain = Some (Inr r)" ..
  have f: "splices_fit sample_plain r"
    by (simp add: splices_fit_def sample_plain_def extra_bytes_of_def)
  from header_region_size [of sample_plain] r f
  have one: "\<exists>r. main sample_plain = Some (Inr r) \<and> splices_fit sample_plain r
        \<and> length (ftyp_buffer r) = 288"
    by blast
  have s2: "sizes_fit sample_long_extra" and p2: "pdf_file sample_long_extra = None"
    and x2: "max 288 (26 + length (extra_bytes_of sample_long_extra)) = 289"
    by (simp_all add: sizes_fit_def sample_long_extra_def sample_plain_def html_markup_def
        extra_bytes_of_def)
  from header_region_size [of sample_long_extra] s2 p2
  have two: "\<exists>r. main sample_long_extra = Some (Inr r) \<and> length (ftyp_buffer r) = 289"
    unfolding x2 by blast
  have s3: "sizes_fit sample_pdf_long_extra" and p3: "pdf_file sample_pdf_long_extra \<noteq> None"
    and x3: "length (extra_bytes_of sample_pdf_long_extra) = 262"
    by (simp_all add: sizes_fit_def sample_pdf_long_extra_def sample_pdf_def sample_plain_def
        html_markup_def extra_bytes_of_def)
  from header_region_size [of sample_pdf_long_extra] s3 p3 x3
  have three: "main sample_pdf_long_extra = Some (Inl IndexError)" by simp
  have s4: "sizes_fit sample_pdf" and p4: "pdf_file sample_pdf \<noteq> None"
    and x4: "length (extra_bytes_of sample_pdf) = 0"
    by (simp_all add: sizes_fit_def sample_pdf_def sample_plain_def html_markup_def
        extra_bytes_of_def)
  from header_region_size [of sample_pdf] s4 p4 x4
  have four: "main sample_pdf \<noteq> Some (Inl IndexError)" by simp
  from one two s2 p2 s3 p3 x3 three s4 p4 x4 four show ?thesis by blast
qed

theorem header_region_size_counterexample:
  "(case main sample_long_extra of
      Some (Inr r) \<Rightarrow> length (ftyp_buffer r) = 289
    | _ \<Rightarrow> False)"
proof -
  from sample_long_extra_completes obtain r where r: "main sample_long_extra = Some (Inr r)" ..
  have "length (ftyp_buffer r) = 289"
    using run_layout [OF r] by (auto simp: sample_long_extra_def sample_plain_def extra_bytes_of_def)
  then show ?thesis by (simp add: r)
qed

lemma py_str_nonempty: "0 < length (py_str l)"
  using digits_nonempty by (simp add: py_str_def)

lemma length_py_str_le:
  assumes "0 \<le> m" and "m < 10 ^ Suc k"
  shows "length (py_str m) \<le> Suc k"
proof -
  have "nat m < 10 ^ Suc k" using assms by (simp add: nat_less_iff)
  then have "length (digits (nat m)) \<le> Suc k" by (rule length_digits_le)
  with assms(1) show ?thesis by (simp add: py_str_def)
qed

text \<open>
  C5 (as amended). The search of lines 150-156 starts from the width
  \<open>30 + len(str(mp4_size))\<close> and tries one candidate per iteration, each one less than the
  one before, so a search that returns the width \<open>c\<close> has made \<open>start - c\<close> iterations.
  Whenever it returns, it has converged: \<open>c\<close> is the length of the string rendered for it,
  the string returned is that one, every larger candidate below the start was no fixed
  point, and the number of iterations is at least one and at most the number of digits of
  \<open>mp4_size\<close>, hence at most 30 for every size below \<open>10^30\<close>. The loop itself has no
  iteration limit and the program has no error for a search that does not converge.
\<close>

theorem obj_string_search:
  assumes "fit_obj_string m a e (30 + int (length (py_str m))) = Some (c, s)"
  shows "exact_fit m a e c \<and> s = obj_string (m - a - e - c)
       \<and> (\<forall>c'. c < c' \<and> c' < 30 + int (length (py_str m)) \<longrightarrow> \<not> exact_fit m a e c')
       \<and> 1 \<le> 30 + int (length (py_str m)) - c
       \<and> 30 + int (length (py_str m)) - c \<le> int (length (py_str m))
       \<and> (0 \<le> m \<and> m < 10 ^ 30 \<longrightarrow> 30 + int (length (py_str m)) - c \<le> 30)"
proof -
  from fit_obj_string_Some [OF assms]
  have lt: "c < 30 + int (length (py_str m))" and s: "s = obj_string (m - a - e - c)"
    and f: "exact_fit m a e c"
    and larger: "\<forall>c'. c < c' \<and> c' < 30 + int (length (py_str m)) \<longrightarrow> \<not> exact_fit m a e c'"
    by simp_all
  from f have "c = 29 + int (length (py_str (m - a - e - c)))"
    by (simp add: exact_fit_def length_obj_string)
  with py_str_nonempty [of "m - a - e - c"] have ge: "30 \<le> c" by linarith
  have "30 + int (length (py_str m)) - c \<le> 30" if "0 \<le> m \<and> m < 10 ^ 30"
  proof -
    from that have "length (py_str m) \<le> Suc 29" by (intro length_py_str_le) simp_all
    with ge show ?thesis by linarith
  qed
  with lt s f larger ge show ?thesis by simp
qed

theorem obj_string_search_witness:
  "fit_obj_string 1000 36 0 (30 + int (length (py_str 1000))) = Some (32, obj_string 932)
   \<and> exact_fit 1000 36 0 32
   \<and> 30 + int (length (py_str 1000)) - 32 = 2"
proof -
  have l: "30 + int (length (py_str 1000)) = 34"
    by (simp add: py_str_def digits.simps)
  have f: "exact_fit 1000 36 0 (34 - int (Suc (Suc 0)))"
    by (simp add: exact_fit_def length_obj_string py_str_def digits.simps)
  have n: "\<not> exact_fit 1000 36 0 (34 - int (Suc j))" if "j < Suc 0" for j
    using that by (simp add: exact_fit_def length_obj_string py_str_def digits.simps)
  have "fit_obj_string 1000 36 0 34
          = Some (34 - int (Suc (Suc 0)), obj_string (1000 - 36 - 0 - (34 - int (Suc (Suc 0)))))"
    using f n by (rule fit_obj_string_first)
  then have run: "fit_obj_string 1000 36 0 (30 + int (length (py_str 1000)))
                    = Some (32, obj_string 932)"
    by (simp add: l)
  from obj_string_search [OF run] run l show ?thesis by simp
qed

theorem obj_string_search_counterexample:
  "main sample_1068 = None"
proof -
  have nofit: "\<not> exact_fit 1068 36 0 c" if "c < 34" for c
  proof (cases "c = 33")
    case True
    then show ?thesis
      by (simp add: exact_fit_def length_obj_string py_str_def digits.simps)
  next
    case False
    with that have c: "c \<le> 32" by simp
    then have "10 ^ 3 \<le> nat (1032 - c)" by simp
    then have "3 < length (digits (nat (1032 - c)))" by (rule length_digits_gt)
    moreover have "py_str (1068 - 36 - 0 - c) = digits (nat (1032 - c))"
      using c by (simp add: py_str_def)
    ultimately have "int (length (obj_string (1068 - 36 - 0 - c))) > 32"
      by (simp add: length_obj_string)
    with c show ?thesis by (simp add: exact_fit_def)
  qed
  have none: "fit_obj_string 1068 36 0 34 = None"
    by (rule fit_obj_string_None) (rule nofit)
  have l: "30 + int (length (py_str 1068)) = 34"
    by (simp add: py_str_def digits.simps)
  have e: "encode_utf8 (html_markup (html_file sample_1068)) = Inr []"
    by (simp add: sample_1068_def sample_pdf_def sample_plain_def html_markup_def)
  have m: "(1068::nat) = 288 + (length ([]::bytes) + length (png_file sample_1068) + 8)
               + length (drop (from_bytes_be (get_slice (mp4_file sample_1068) 0 4)) (mp4_file sample_1068))"
    by (simp add: sample_1068_def sample_pdf_def sample_plain_def get_slice_def from_bytes_be_def NUL_def)
  have x: "extra_bytes_of sample_1068 = []"
    by (simp add: sample_1068_def sample_pdf_def sample_plain_def extra_bytes_of_def)
  have "main sample_1068 =
     (case fit_obj_string (int 1068) (int (36 + length (extra_bytes_of sample_1068)))
             (int (length (extra_bytes_of sample_1068))) (30 + int (length (py_str (int 1068)))) of
        None \<Rightarrow> None
      | Some res \<Rightarrow> main sample_1068)"
    by (rule main_pdf_outcome(1) [OF _ e _ _ _ m])
       (simp_all add: sample_1068_def sample_pdf_def sample_plain_def extra_bytes_of_def)
  then show ?thesis using none l by (simp add: x)
qed

text \<open>
  C10 (as amended). When a hypertext file is given, the payload of the wrapper box holds
  the hypertext between the fixed markup prefix and suffix, not the bare hypertext, and
  the image offset written at bytes 18-21 counts the wrapped length; in a completed run
  whose header region has kept its 288 bytes the image stands in the output file from
  exactly that offset on.
\<close>

theorem hypertext_markup:
  assumes "main inp = Some (Inr r)" and "html_file inp = Some text"
    and "length (ftyp_buffer r) = 288"
  shows "\<exists>tb. encode_utf8 text = Inr tb
           \<and> drop 8 (skip_atom r) = html_prefix @ tb @ html_suffix @ png_file inp
           \<and> from_bytes_le (get_slice (out_file r) 18 22)
               = 288 + 8 + (length html_prefix + length tb + length html_suffix)
           \<and> take (length (png_file inp))
                (drop (from_bytes_le (get_slice (out_file r) 18 22)) (out_file r)) = png_file inp"
proof -
  from out_layout [OF assms(1)] obtain hb sf sfx where
    hb: "encode_utf8 (html_markup (html_file inp)) = Inr hb" and sf: "length sf = 4" and
    sk: "skip_atom r = sf @ ''skip'' @ hb @ png_file inp" and
    o: "out_file r = (ftyp_buffer r)[3 := NUL] @ sf @ ''skip'' @ hb @ png_file inp
                              @ rest_bytes r @ sfx" and
    v: "from_bytes_le (get_slice (ftyp_buffer r) 18 22) = 288 + 8 + length hb" and
    l: "22 \<le> length (ftyp_buffer r)"
    by (elim exE conjE) (rule that)
  from html_markup_bytes [OF hb [unfolded assms(2)]] obtain tb where
    tb: "encode_utf8 text = Inr tb" and hb': "hb = html_prefix @ tb @ html_suffix"
    by (elim exE conjE) (rule that)
  have fld: "from_bytes_le (get_slice (out_file r) 18 22) = 288 + 8 + length hb"
    using field_of_out_file [OF o l] v by simp
  define pre where "pre = (ftyp_buffer r)[3 := NUL] @ sf @ ''skip'' @ hb"
  have lp: "length pre = 288 + 8 + length hb" by (simp add: pre_def assms(3) sf)
  have "out_file r = pre @ png_file inp @ rest_bytes r @ sfx" by (simp add: pre_def o)
  then have d: "drop (288 + 8 + length hb) (out_file r) = png_file inp @ rest_bytes r @ sfx"
    using lp by simp
  have "drop 8 (skip_atom r) = hb @ png_file inp" by (simp add: sk sf)
  with tb fld d show ?thesis by (simp add: hb')
qed

theorem hypertext_markup_witness:
  "\<exists>r. main sample_html = Some (Inr r) \<and> html_file sample_html = Some (literal ''<b>hi</b>'')
       \<and> length (ftyp_buffer r) = 288
       \<and> drop 8 (skip_atom r) = html_prefix @ ''<b>hi</b>'' @ html_suffix @ ''PNG''
       \<and> from_bytes_le (get_slice (out_file r) 18 22) = 379
       \<and> take 3 (drop 379 (out_file r)) = ''PNG''"
proof -
  from sample_html_completes obtain r where r: "main sample_html = Some (Inr r)" ..
  have h: "html_file sample_html = Some (literal ''<b>hi</b>'')"
    by (simp add: sample_html_def)
  have l: "length (ftyp_buffer r) = 288"
    using run_layout [OF r] by (auto simp: sample_html_def sample_plain_def extra_bytes_of_def)
  have e: "encode_utf8 (literal ''<b>hi</b>'') = Inr ''<b>hi</b>''"
    by (rule encode_utf8_ascii) simp
  have p: "png_file sample_html = ''PNG''" by (simp add: sample_html_def sample_plain_def)
  from hypertext_markup [OF r h l] e
  have "drop 8 (skip_atom r) = html_prefix @ ''<b>hi</b>'' @ html_suffix @ png_file sample_html
      \<and> from_bytes_le (get_slice (out_file r) 18 22)
           = 288 + 8 + (length html_prefix + length ''<b>hi</b>'' + length html_suffix)
      \<and> take (length (png_file sample_html))
            (drop (from_bytes_le (get_slice (out_file r) 18 22)) (out_file r)) = png_file sample_html"
    by auto
  then show ?thesis
    using r h l by (auto simp: p length_html_prefix length_html_suffix numeral_3_eq_3)
qed

theorem hypertext_markup_counterexample:
  "(case main sample_html_long_extra of
      Some (Inr r) \<Rightarrow>
        from_bytes_le (get_slice (out_file r) 18 22) = 379
        \<and> take 3 (drop 379 (out_file r)) \<noteq> png_file sample_html_long_extra
        \<and> take 3 (drop 380 (out_file r)) = png_file sample_html_long_extra
    | _ \<Rightarrow> False)"
proof -
  from sample_html_long_extra_completes obtain r
    where r: "main sample_html_long_extra = Some (Inr r)" ..
  have l: "length (ftyp_buffer r) = 289"
    using run_layout [OF r]
    by (auto simp: sample_html_long_extra_def sample_long_extra_def sample_plain_def
        extra_bytes_of_def)
  have h: "html_file sample_html_long_extra = Some (literal ''<b>hi</b>'')"
    by (simp add: sample_html_long_extra_def)
  have p: "png_file sample_html_long_extra = ''PNG''"
    by (simp add: sample_html_long_extra_def sample_long_extra_def sample_plain_def)
  from out_layout [OF r] obtain hb sf sfx where
    hb: "encode_utf8 (html_markup (html_file sample_html_long_extra)) = Inr hb" and
    sf: "length sf = 4" and
    o: "out_file r = (ftyp_buffer r)[3 := NUL] @ sf @ ''skip'' @ hb @ png_file sample_html_long_extra
                              @ rest_bytes r @ sfx" and
    v: "from_bytes_le (get_slice (ftyp_buffer r) 18 22) = 288 + 8 + length hb" and
    l22: "22 \<le> length (ftyp_buffer r)"
    by (elim exE conjE) (rule that)
  have e: "encode_utf8 (literal ''<b>hi</b>'') = Inr ''<b>hi</b>''"
    by (rule encode_utf8_ascii) simp
  from html_markup_bytes [OF hb [unfolded h]] e
  have hb': "hb = html_prefix @ ''<b>hi</b>'' @ ''</div><!-'' @ ''-''"
    by (auto simp: html_suffix_def)
  have lhb: "length hb = 83" by (simp add: hb' length_html_prefix)
  have fld: "from_bytes_le (get_slice (out_file r) 18 22) = 379"
    using field_of_out_file [OF o l22] v lhb by simp
  define pre where
    "pre = (ftyp_buffer r)[3 := NUL] @ sf @ ''skip'' @ html_prefix @ ''<b>hi</b>'' @ ''</div><!-''"
  have lp: "length pre = 379" by (simp add: pre_def l sf length_html_prefix)
  have o': "out_file r = pre @ ''-'' @ ''PNG'' @ rest_bytes r @ sfx"
    by (simp add: pre_def o hb' p)
  have d9: "drop 379 (out_file r) = ''-'' @ ''PNG'' @ rest_bytes r @ sfx"
    unfolding o' using lp by simp
  have d0: "drop 380 (out_file r) = ''PNG'' @ rest_bytes r @ sfx"
    unfolding o' using lp by simp
  have "take 3 (drop 379 (out_file r)) \<noteq> png_file sample_html_long_extra"
    by (simp add: d9 p)
  moreover have "take 3 (drop 380 (out_file r)) = png_file sample_html_long_extra"
    by (simp add: d0 p)
  ultimately show ?thesis using fld by (simp add: r)
qed

lemma length_pad_left: "length (pad_left n k) = max k (length (py_str n))"
  by (simp add: pad_left_def Let_def)

text \<open>
  C6 (as amended). An iteration of the entry loop whose 10-character field parses as an
  integer \<open>v\<close> never fails: it stores a field of exactly ten characters at the same
  place, the zero-left-padded decimal of \<open>v + out_size\<close> when that has at most ten
  characters and its first ten characters otherwise, and goes on with the line after the
  next newline.
\<close>

theorem entry_field_rewrite:
  assumes "py_int (get_slice buf c (c + 10)) = Inr v"
  shows "\<exists>field. length field = 10
           \<and> field = (if length (py_str (v + out_size)) \<le> 10
                      then replicate (10 - length (py_str (v + out_size))) (CHR ''0'')
                           @ py_str (v + out_size)
                      else take 10 (py_str (v + out_size)))
           \<and> patch_entries (Suc k) c out_size buf
               = patch_entries k (nat (py_find (set_slice buf c (c + 10) field) [NL] (c + 1) + 1))
                   out_size (set_slice buf c (c + 10) field)"
proof -
  let ?f = "take 10 (pad_left (v + out_size) 10)"
  have "length ?f = 10" by (simp add: length_pad_left)
  moreover have "?f = (if length (py_str (v + out_size)) \<le> 10
                      then replicate (10 - length (py_str (v + out_size))) (CHR ''0'')
                           @ py_str (v + out_size)
                      else take 10 (py_str (v + out_size)))"
    by (simp add: pad_left_def Let_def)
  moreover have "patch_entries (Suc k) c out_size buf
               = patch_entries k (nat (py_find (set_slice buf c (c + 10) ?f) [NL] (c + 1) + 1))
                   out_size (set_slice buf c (c + 10) ?f)"
    using assms by (simp add: Let_def)
  ultimately show ?thesis by (intro exI [of _ ?f]) simp
qed

theorem entry_field_rewrite_witness:
  "py_int (get_slice ''0000000009 00000 n '' 0 (0 + 10)) = Inr 9
   \<and> patch_entries (Suc 0) 0 321 ''0000000009 00000 n '' = (''0000000330 00000 n '', None)"
proof -
  have p: "py_int (get_slice ''0000000009 00000 n '' 0 (0 + 10)) = Inr 9"
    by code_simp
  from entry_field_rewrite [OF p, of 321 0] obtain field where
    f: "field = (if length (py_str (9 + 321)) \<le> 10
                 then replicate (10 - length (py_str (9 + 321))) (CHR ''0'') @ py_str (9 + 321)
                 else take 10 (py_str (9 + 321)))" and
    e: "patch_entries (Suc 0) 0 321 ''0000000009 00000 n ''
          = patch_entries 0 (nat (py_find (set_slice ''0000000009 00000 n '' 0 (0 + 10) field) [NL] (0 + 1) + 1))
              321 (set_slice ''0000000009 00000 n '' 0 (0 + 10) field)"
    by (elim exE conjE) (rule that)
  have "(if length (py_str (9 + 321)) \<le> 10
                 then replicate (10 - length (py_str (9 + 321))) (CHR ''0'') @ py_str (9 + 321)
                 else take 10 (py_str (9 + 321))) = ''0000000330''"
    by code_simp
  then have f': "field = ''0000000330''" by (simp only: f)
  have s: "set_slice ''0000000009 00000 n '' 0 (0 + 10) ''0000000330'' = ''0000000330 00000 n ''"
    by code_simp
  have "patch_entries (Suc 0) 0 321 ''0000000009 00000 n '' = (''0000000330 00000 n '', None)"
    unfolding e f' s by (simp only: patch_entries.simps)
  with p show ?thesis by (rule conjI)
qed

lemma py_int_nines: "py_int (get_slice ''9999999999 00000 n '' 0 10) = Inr 9999999999"
  by code_simp

lemma pad_left_overflow: "take 10 (pad_left 10000000313 10) = ''1000000031''"
  by (simp add: pad_left_def py_str_def digits.simps digit_char_def char_of_def bit_Suc_0_iff)

theorem entry_overflow_counterexample:
  "patch_entries (Suc 0) 0 314 ''9999999999 00000 n '' = (''1000000031 00000 n '', None)"
  by (simp add: py_int_nines pad_left_overflow Let_def set_slice_def)

lemma sample_document_tail:
  "snd (pdf_tail sample_document 303) = None \<and> length (fst (pdf_tail sample_document 303)) = 137"
  by code_simp

lemma sample_pdf_completes: "\<exists>r. main sample_pdf = Some (Inr r)"
proof -
  have f: "exact_fit 303 36 0 (33 - int (Suc 0))"
    by (simp add: exact_fit_def length_obj_string py_str_def digits.simps)
  have "fit_obj_string 303 36 0 33 = Some (33 - int (Suc 0), obj_string (303 - 36 - 0 - (33 - int (Suc 0))))"
    using f by (rule fit_obj_string_first) simp
  then have ne: "fit_obj_string 303 36 0 33 \<noteq> None" by simp
  have l: "30 + int (length (py_str 303)) = 33"
    by (simp add: py_str_def digits.simps)
  have e: "encode_utf8 (html_markup (html_file sample_pdf)) = Inr []"
    by (simp add: sample_pdf_def sample_plain_def html_markup_def)
  have m: "(303::nat) = 288 + (length ([]::bytes) + length (png_file sample_pdf) + 8)
               + length (drop (from_bytes_be (get_slice (mp4_file sample_pdf) 0 4)) (mp4_file sample_pdf))"
    by (simp add: sample_pdf_def sample_plain_def get_slice_def from_bytes_be_def NUL_def)
  have x: "extra_bytes_of sample_pdf = []"
    by (simp add: sample_pdf_def sample_plain_def extra_bytes_of_def)
  show ?thesis
  proof (rule main_pdf_outcome(2) [OF _ e _ _ _ m])
    show "fit_obj_string (int 303) (int (36 + length (extra_bytes_of sample_pdf)))
             (int (length (extra_bytes_of sample_pdf))) (30 + int (length (py_str (int 303)))) \<noteq> None"
      using ne l by (simp add: x)
  qed (simp_all add: sample_pdf_def sample_plain_def extra_bytes_of_def)
qed

lemma sample_pdf_sizes:
  assumes "main sample_pdf = Some (Inr r)"
  shows "length (final_mp4 r) = 303" and "length (zeroed r) = 303"
proof -
  from out_layout [OF assms] obtain hb sf sfx where
    hb: "encode_utf8 (html_markup (html_file sample_pdf)) = Inr hb" and sf: "length sf = 4" and
    sk: "skip_atom r = sf @ ''skip'' @ hb @ png_file sample_pdf" and
    z: "zeroed r = (final_mp4 r)[3 := NUL]"
    by (elim exE conjE) (rule that)
  have "hb = []" using hb by (simp add: sample_pdf_def sample_plain_def html_markup_def)
  then have ls: "length (skip_atom r) = 11"
    by (simp add: sk sf sample_pdf_def sample_plain_def)
  have "rest_bytes r = drop (from_bytes_be (get_slice (mp4_file sample_pdf) 0 4)) (mp4_file sample_pdf)"
    using assemble_Inr [OF main_Inr(1) [OF assms]] by (elim exE conjE)
  then have lr: "length (rest_bytes r) = 4"
    by (simp add: sample_pdf_def sample_plain_def get_slice_def from_bytes_be_def NUL_def)
  have "splices_fit sample_pdf r"
    by (simp add: splices_fit_def sample_pdf_def sample_plain_def extra_bytes_of_def ls lr
        sample_document_def py_str_def digits.simps)
  from header_288 [OF assms this] have lh: "length (ftyp_buffer r) = 288" .
  show "length (final_mp4 r) = 303" by (simp add: main_Inr(2) [OF assms] lh ls lr)
  then show "length (zeroed r) = 303" by (simp add: z)
qed

text \<open>
  C8. The run on the sample document: the patch succeeds, the terminator has 18 bytes and
  the document 117, yet the appended tail has 137 bytes and the output file 440, two more
  than the media part, the terminator and the document together.
\<close>

theorem document_tail_two_bytes_longer:
  "(case main sample_pdf of
      Some (Inr r) \<Rightarrow>
        caught r = None
        \<and> length (final_mp4 r) = 303
        \<and> length object_terminator = 18 \<and> length sample_document = 117
        \<and> map_option length (pdf_buffer r) = Some 137
        \<and> length (out_file r) = 440
    | _ \<Rightarrow> False)"
proof -
  from sample_pdf_completes obtain r where r: "main sample_pdf = Some (Inr r)" ..
  note sz = sample_pdf_sizes [OF r]
  have p: "pdf_file sample_pdf = Some sample_document" by (simp add: sample_pdf_def)
  have c: "caught r = None"
    using main_Inr(5) [OF r] sample_document_tail by (simp add: p sz)
  have b: "pdf_buffer r = Some (fst (pdf_tail sample_document 303))"
    using main_Inr(4) [OF r] by (simp add: p sz)
  have o: "out_file r = zeroed r @ fst (pdf_tail sample_document 303)"
    using main_Inr(6) [OF r] by (simp add: b append_tails_def sample_pdf_def sample_plain_def)
  have t: "length object_terminator = 18" by (simp add: object_terminator_def)
  have d: "length sample_document = 117" by (simp add: sample_document_def)
  show ?thesis
    using c sz b o t d sample_document_tail by (simp add: r)
qed

lemma find_from_found:
  assumes "find_from sub xs i = r" and "r \<noteq> - 1" and "sub \<noteq> []"
  shows "int i \<le> r \<and> nat r - i < length xs \<and> take (length sub) (drop (nat r - i) xs) = sub"
  using assms
proof (induction xs arbitrary: i)
  case Nil
  then show ?case by simp
next
  case (Cons x xs)
  show ?case
  proof (cases "take (length sub) (x # xs) = sub")
    case True
    with Cons.prems have "r = int i" by simp
    with True show ?thesis by simp
  next
    case False
    with Cons.prems have "find_from sub xs (i + 1) = r" by simp
    from Cons.IH [OF this Cons.prems(2,3)]
    have a: "int (i + 1) \<le> r" and b: "nat r - (i + 1) < length xs"
      and c: "take (length sub) (drop (nat r - (i + 1)) xs) = sub"
      by simp_all
    from a have d: "nat r - i = Suc (nat r - (i + 1))" by simp
    show ?thesis using a b c unfolding d by simp
  qed
qed

lemma py_find_found:
  assumes "py_find data sub st = r" and "r \<noteq> - 1" and "sub \<noteq> []"
  shows "int st \<le> r \<and> nat r < length data \<and> take (length sub) (drop (nat r) data) = sub"
proof -
  from assms(1,2) have st: "st \<le> length data" and f: "find_from sub (drop st data) st = r"
    by (auto simp: py_find_def split: if_splits)
  from find_from_found [OF f assms(2,3)]
  have a: "int st \<le> r" and b: "nat r - st < length (drop st data)"
    and c: "take (length sub) (drop (nat r - st) (drop st data)) = sub"
    by simp_all
  from a have "nat r - st + st = nat r" by simp
  with b c a st show ?thesis by (simp add: add.commute)
qed

lemma py_find_newline:
  assumes "py_find data [NL] st = r" and "r \<noteq> - 1"
  shows "int st \<le> r \<and> nat r < length data \<and> data ! nat r = NL"
proof -
  from py_find_found [OF assms] have a: "int st \<le> r" and b: "nat r < length data"
    and c: "take (length [NL]) (drop (nat r) data) = [NL]" by simp_all
  from c b have "data ! nat r = NL"
    by (simp add: take_Suc_conv_app_nth hd_drop_conv_nth [symmetric] take_Suc)
  with a b show ?thesis by simp
qed

lemma digit_char_not_NL: "d < 10 \<Longrightarrow> digit_char d \<noteq> NL"
proof
  assume d: "d < 10" and "digit_char d = NL"
  then have "(of_char (digit_char d) :: nat) = of_char NL" by simp
  then have "(48 + d) mod 256 = 10" by (simp add: digit_char_def NL_def)
  with d show False by simp
qed

lemma NL_notin_digits: "NL \<notin> set (digits n)"
proof (induction n rule: digits.induct)
  case (1 n)
  show ?case
  proof (cases "n < 10")
    case True
    with digit_char_not_NL [OF True] show ?thesis by (subst digits.simps) auto
  next
    case False
    have "n mod 10 < 10" by simp
    from digit_char_not_NL [OF this] 1 [OF False] False show ?thesis
      by (subst digits.simps) auto
  qed
qed

lemma NL_notin_pad_left: "NL \<notin> set (take 10 (pad_left n 10))"
proof -
  have "NL \<notin> set (py_str n)"
    using NL_notin_digits by (auto simp: py_str_def NL_def)
  then have "NL \<notin> set (pad_left n 10)"
    by (auto simp: pad_left_def Let_def NL_def)
  then show ?thesis by (meson in_set_takeD)
qed


lemma fold_update_take:
  "\<forall>i\<in>set js. k \<le> i \<Longrightarrow> take k (fold (\<lambda>i b. b[i := c]) js b) = take k b"
  by (induction js arbitrary: b) simp_all

lemma fold_update_length: "length (fold (\<lambda>i b. b[i := c]) js b) = length b"
  by (induction js arbitrary: b) simp_all

lemma zero_from_take: "take k (zero_from b k) = take k b"
  unfolding zero_from_def by (rule fold_update_take) simp

lemma length_zero_from: "length (zero_from b k) = length b"
  unfolding zero_from_def by (rule fold_update_length)

lemma set_slice_inside:
  assumes "c \<le> length buf" and "length f = 10"
  shows "take c (set_slice buf c (c + 10) f) = take c buf"
    and "get_slice (set_slice buf c (c + 10) f) c (c + 10) = f"
    and "length buf \<le> length (set_slice buf c (c + 10) f)"
    and "c + 10 \<le> length (set_slice buf c (c + 10) f)"
    and "c + 10 \<le> length buf \<Longrightarrow> drop (c + 10) (set_slice buf c (c + 10) f) = drop (c + 10) buf"
    and "c + 10 \<le> length buf \<Longrightarrow> length (set_slice buf c (c + 10) f) = length buf"
  using assms by (auto simp: set_slice_def Let_def get_slice_def min_def max_def)

lemma get_slice_10: "get_slice xs a (a + 10) = take 10 (drop a xs)"
  by (simp add: get_slice_def drop_take)

lemma drop_eq_from:
  assumes "drop a xs = drop a ys" and "a \<le> q"
  shows "drop q xs = drop q ys"
proof -
  have "drop q xs = drop (q - a) (drop a xs)" using assms(2) by simp
  also have "\<dots> = drop (q - a) (drop a ys)" by (simp only: assms(1))
  also have "\<dots> = drop q ys" using assms(2) by simp
  finally show ?thesis .
qed

lemma take_eq_from:
  assumes "take b xs = take b ys" and "a \<le> b"
  shows "take a xs = take a ys"
proof -
  have "take a xs = take a (take b xs)" using assms(2) by (simp add: min_def)
  also have "\<dots> = take a (take b ys)" by (simp only: assms(1))
  also have "\<dots> = take a ys" using assms(2) by (simp add: min_def)
  finally show ?thesis .
qed

lemma set_slice_at:
  assumes "a \<le> length buf"
  shows "take a (set_slice buf a b v) = take a buf"
    and "get_slice (set_slice buf a b v) a (a + length v) = v"
  using assms by (auto simp: set_slice_def Let_def get_slice_def min_def max_def)

lemma pdf_tail_success:
  assumes "pdf_tail pdf fs = (tail, None)"
    and "xref_anchors (object_terminator @ pdf) = (x, o', s, e)"
  shows "0 < x \<and> 0 < o' \<and> 0 < s \<and> 0 < e
       \<and> (\<exists>count buf1.
             xref_count (get_slice (object_terminator @ pdf) (nat x) (nat o')) = Inr count
           \<and> patch_entries (nat count) (nat o') (int fs + int (length object_terminator))
                (object_terminator @ pdf) = (buf1, None)
           \<and> patch_startxref buf1 (nat s) (nat e) (int fs + int (length object_terminator))
                = (tail, None))"
proof -
  let ?b = "object_terminator @ pdf"
  let ?out = "int fs + int (length object_terminator)"
  have x: "x = find_sub_array_index ?b ([NL] @ ''xref'') 0 + 1"
    and o: "o' = find_sub_array_index ?b ([NL] @ ''0000000000'') (nat x) + 1"
    and s: "s = find_sub_array_index ?b ([NL] @ ''startxref'') (nat x) + 1"
    and e: "e = py_find ?b [NL] (nat (s + 11))"
    using assms(2) by (auto simp: xref_anchors_def Let_def)
  have unf: "pdf_tail pdf fs =
      (if min (min x o') (min s e) \<le> 0 then (?b, Some XrefNotFound)
       else (case xref_count (get_slice ?b (nat x) (nat o')) of
               Inl e \<Rightarrow> (?b, Some e)
             | Inr count \<Rightarrow>
                 (case patch_entries (nat count) (nat o') ?out ?b of
                    (buf, Some e) \<Rightarrow> (buf, Some e)
                  | (buf, None) \<Rightarrow> patch_startxref buf (nat s) (nat e) ?out)))"
    unfolding pdf_tail_def Let_def x [symmetric] o [symmetric] s [symmetric] e [symmetric] ..
  from assms(1) have pos: "\<not> min (min x o') (min s e) \<le> 0"
    unfolding unf by (auto split: if_splits)
  then have p4: "0 < x \<and> 0 < o' \<and> 0 < s \<and> 0 < e" by linarith
  from assms(1) pos obtain count where
    c: "xref_count (get_slice ?b (nat x) (nat o')) = Inr count"
    unfolding unf by (cases "xref_count (get_slice ?b (nat x) (nat o'))") auto
  obtain buf1 ex where pe: "patch_entries (nat count) (nat o') ?out ?b = (buf1, ex)"
    by (cases "patch_entries (nat count) (nat o') ?out ?b") auto
  from assms(1) pos c pe have ex: "ex = None"
    unfolding unf by (cases ex) auto
  from assms(1) pos c pe ex have ps: "patch_startxref buf1 (nat s) (nat e) ?out = (tail, None)"
    unfolding unf by simp
  from p4 c pe ex ps show ?thesis by blast
qed

lemma startxref_end_bounds:
  assumes "xref_anchors buf = (x, o', s, e)" and "0 < e" and "0 < s"
  shows "nat s + 10 < nat e \<and> nat e < length buf"
proof -
  have e: "py_find buf [NL] (nat (s + 11)) = e"
    using assms(1) by (auto simp: xref_anchors_def Let_def)
  from assms(2) have "e \<noteq> - 1" by simp
  from py_find_newline [OF e this]
  have a: "int (nat (s + 11)) \<le> e" and b: "nat e < length buf" by simp_all
  from a assms(3) have "nat s + 10 < nat e" by linarith
  with b show ?thesis by simp
qed

lemma patch_startxref_success:
  assumes "patch_startxref buf1 s e out = (tail, None)" and "s + 10 \<le> length buf1"
  shows "\<exists>v. py_int (get_slice buf1 (s + 10) e) = Inr v
           \<and> py_str_limited (v + out) = Inr (py_str (v + out))
           \<and> take (s + 10) tail = take (s + 10) buf1
           \<and> get_slice tail (s + 10) (s + 10 + length (py_str (v + out))) = py_str (v + out)
           \<and> length buf1 + 2 \<le> length tail"
proof (cases "py_int (get_slice buf1 (s + 10) e)")
  case (Inl err)
  with assms(1) show ?thesis by (simp add: patch_startxref_def)
next
  case (Inr v)
  define new where "new = py_str (v + out)"
  define n where "n = length new"
  define b1 where "b1 = set_slice buf1 (s + 10) (s + 10 + n) new"
  define b2 where "b2 = set_slice b1 (s + 10 + n) (s + 15 + n) ([NL] @ ''%%EOF'' @ [NL])"
  have lim: "py_str_limited (v + out) = Inr new"
    using assms(1) Inr by (auto simp: patch_startxref_def py_str_limited_def new_def split: if_splits)
  have tl: "tail = zero_from b2 (s + n + 17)"
    using assms(1) Inr lim by (simp add: patch_startxref_def Let_def n_def b1_def b2_def)
  have t1: "take (s + 10) b1 = take (s + 10) buf1"
    unfolding b1_def using assms(2) by (rule set_slice_at(1))
  have g1: "get_slice b1 (s + 10) (s + 10 + n) = new"
    unfolding b1_def n_def using assms(2) by (rule set_slice_at(2))
  have l1: "s + 10 + n \<le> length b1"
    unfolding b1_def n_def using assms(2) by (rule length_set_slice_ge)
  have l1': "length buf1 \<le> length b1"
    using assms(2) by (auto simp: b1_def n_def length_set_slice)
  have t2: "take (s + 10 + n) b2 = take (s + 10 + n) b1"
    unfolding b2_def using l1 by (rule set_slice_at(1))
  have l2: "length b1 + 2 \<le> length b2"
    using l1 by (auto simp: b2_def length_set_slice)
  have t3: "take (s + 10 + n) tail = take (s + 10 + n) b2"
  proof -
    have "take (s + n + 17) tail = take (s + n + 17) b2" unfolding tl by (rule zero_from_take)
    then show ?thesis by (rule take_eq_from) simp
  qed
  have t: "take (s + 10 + n) tail = take (s + 10 + n) b1" using t3 t2 by simp
  have "take (s + 10) tail = take (s + 10) b1" using t by (rule take_eq_from) simp
  with t1 have A: "take (s + 10) tail = take (s + 10) buf1" by simp
  have B: "get_slice tail (s + 10) (s + 10 + n) = new"
    using t g1 by (simp add: get_slice_def)
  have C: "length buf1 + 2 \<le> length tail"
    using l1' l2 by (simp add: tl length_zero_from)
  from Inr lim A B C show ?thesis by (auto simp: new_def n_def)
qed

lemma get_slice_drop: "get_slice xs a b = take (b - a) (drop a xs)"
  by (simp add: get_slice_def drop_take)

lemma of_char_digit_char: "d < 10 \<Longrightarrow> (of_char (digit_char d) :: nat) = 48 + d"
  by (simp add: digit_char_def)

lemma is_digit_digit_char: "d < 10 \<Longrightarrow> is_digit (digit_char d)"
  by (simp add: is_digit_def of_char_digit_char)

lemma digit_val_digit_char: "d < 10 \<Longrightarrow> digit_val (digit_char d) = int d"
  by (simp add: digit_val_def of_char_digit_char)

lemma digits_all_digit: "c \<in> set (digits n) \<Longrightarrow> is_digit c"
proof (induction n arbitrary: c rule: digits.induct)
  case (1 n)
  show ?case
  proof (cases "n < 10")
    case True
    with 1(2) have "c = digit_char n" by (subst (asm) digits.simps) simp
    with True show ?thesis by (simp add: is_digit_digit_char)
  next
    case False
    with 1(2) have "c \<in> set (digits (n div 10)) \<or> c = digit_char (n mod 10)"
      by (subst (asm) digits.simps) auto
    with 1(1) [OF False] show ?thesis by (auto simp: is_digit_digit_char)
  qed
qed

lemma scan_digits_all_digit:
  "\<forall>c\<in>set ds. is_digit c \<Longrightarrow> prev \<noteq> CHR ''_'' \<Longrightarrow>
   scan_digits ds prev n acc = Some ([], n + length ds, digits_value ds acc)"
proof (induction ds arbitrary: prev n acc)
  case Nil
  then show ?case by (simp add: digits_value_def)
next
  case (Cons c cs)
  then have d: "is_digit c" by simp
  then have "c \<noteq> CHR ''_''" by (auto simp: is_digit_def)
  with Cons d show ?case by (simp add: digits_value_def)
qed

lemma digits_value_digits: "digits_value (digits n) 0 = int n"
proof (induction n rule: digits.induct)
  case (1 n)
  show ?case
  proof (cases "n < 10")
    case True
    then show ?thesis
      by (subst digits.simps) (simp add: digits_value_def digit_val_digit_char)
  next
    case False
    have "digits_value (digits n) 0
        = 10 * digits_value (digits (n div 10)) 0 + digit_val (digit_char (n mod 10))"
      using False by (subst digits.simps) (simp add: digits_value_def)
    also have "\<dots> = 10 * int (n div 10) + int (n mod 10)"
      using 1 [OF False] by (simp add: digit_val_digit_char)
    also have "\<dots> = int n" by (simp add: zdiv_int zmod_int)
    finally show ?thesis .
  qed
qed

lemma digits_value_zeros: "digits_value (replicate k (CHR ''0'') @ ds) 0 = digits_value ds 0"
  by (induction k) (simp_all add: digits_value_def digit_val_def)

lemma is_digit_ascii: "is_digit c \<Longrightarrow> (of_char c :: nat) < 128"
  by (simp add: is_digit_def Let_def)

lemma is_digit_not_space: "is_digit c \<Longrightarrow> \<not> py_isspace (of_char c)"
  by (auto simp: is_digit_def py_isspace_def Let_def)

lemma is_digit_not_blank: "is_digit c \<Longrightarrow> \<not> c_isspace c"
  by (auto simp: is_digit_def c_isspace_def Let_def)

lemma is_digit_not_sign:
  "is_digit c \<Longrightarrow> c \<noteq> CHR ''+'' \<and> c \<noteq> CHR ''-'' \<and> c \<noteq> CHR ''_''"
  by (auto simp: is_digit_def)

lemma decode_points_ascii: "\<forall>b\<in>set bs. b < 128 \<Longrightarrow> decode_points bs = Some bs"
  by (induction bs) simp_all

lemma decode_utf8_ascii:
  "\<forall>c\<in>set bs. (of_char c :: nat) < 128 \<Longrightarrow> decode_utf8 bs = Inr (map of_char bs)"
  by (simp add: decode_utf8_def decode_points_ascii)

lemma py_strip_id:
  assumes "s \<noteq> []" and "\<not> py_isspace (hd s)" and "\<not> py_isspace (last s)"
  shows "py_strip s = s"
proof -
  have a: "dropWhile py_isspace s = s"
    using assms(1,2) by (cases s) simp_all
  have "rev s \<noteq> []" and "\<not> py_isspace (hd (rev s))"
    using assms(1,3) by (simp_all add: hd_rev)
  then have "dropWhile py_isspace (rev s) = rev s"
    by (cases "rev s") simp_all
  with a show ?thesis by (simp add: py_strip_def)
qed

lemma int_of_str_ascii:
  assumes "\<forall>c\<in>set t. (of_char c :: nat) < 128"
  shows "int_of_str (map of_char t) =
           (case long_from_string t of None \<Rightarrow> Inl ValueError | Some v \<Rightarrow> Inr v)"
proof -
  have "list_all (\<lambda>c. c < 128) (map of_char t :: nat list)"
    using assms by (simp add: list_all_iff)
  moreover have "map char_of (map of_char t :: nat list) = t"
    by (simp add: comp_def)
  ultimately show ?thesis by (simp add: int_of_str_def)
qed

lemma long_from_string_unfold:
  assumes "dropWhile c_isspace t = t1" and "neg = (take 1 t1 = ''-'')"
    and "t2 = (if take 1 t1 = ''+'' \<or> take 1 t1 = ''-'' then drop 1 t1 else t1)"
  shows "long_from_string t =
     (if take 1 t2 = ''_'' then None
      else (case scan_digits t2 (CHR 0x00) 0 0 of
              None \<Rightarrow> None
            | Some (rest, n, v) \<Rightarrow>
                if length rest = length t2 \<or> 4300 < n \<or> dropWhile c_isspace rest \<noteq> [] then None
                else Some (if neg then - v else v)))"
  unfolding assms(2,3) assms(1) [symmetric] long_from_string_def Let_def ..

lemma long_from_string_digits:
  assumes "ds \<noteq> []" and "\<forall>c\<in>set ds. is_digit c" and "length ds \<le> 4300"
  shows "long_from_string ds = Some (digits_value ds 0)"
proof -
  obtain d rest where ds: "ds = d # rest" using assms(1) by (cases ds) auto
  with assms(2) have d: "is_digit d" by simp
  note n = is_digit_not_sign [OF d]
  have dw: "dropWhile c_isspace ds = ds"
    using is_digit_not_blank [OF d] by (simp add: ds)
  have t2: "ds = (if take 1 ds = ''+'' \<or> take 1 ds = ''-'' then drop 1 ds else ds)"
    using n by (simp add: ds)
  have ng: "False = (take 1 ds = ''-'')" using n by (simp add: ds)
  have tk: "take (Suc 0) ds = [d]" by (simp add: ds)
  have sc: "scan_digits ds (CHR 0x00) 0 0 = Some ([], length ds, digits_value ds 0)"
    using scan_digits_all_digit [OF assms(2), of "CHR 0x00" 0 0] by simp
  have lim: "(4300 < length ds) = False" using assms(3) by arith
  show ?thesis
    by (subst long_from_string_unfold [OF dw ng t2]) (simp add: tk sc n assms(1) lim)
qed

lemma long_from_string_minus:
  assumes "ds \<noteq> []" and "\<forall>c\<in>set ds. is_digit c" and "length ds \<le> 4300"
    and "t = CHR ''-'' # ds"
  shows "long_from_string t = Some (- digits_value ds 0)"
proof -
  obtain d rest where ds: "ds = d # rest" using assms(1) by (cases ds) auto
  with assms(2) have d: "is_digit d" by simp
  note n = is_digit_not_sign [OF d]
  have dw: "dropWhile c_isspace t = t"
    by (simp add: assms(4) c_isspace_def)
  have t2: "ds = (if take 1 t = ''+'' \<or> take 1 t = ''-'' then drop 1 t else t)"
    by (simp add: assms(4))
  have ng: "True = (take 1 t = ''-'')" by (simp add: assms(4))
  have tk: "take (Suc 0) ds = [d]" by (simp add: ds)
  have sc: "scan_digits ds (CHR 0x00) 0 0 = Some ([], length ds, digits_value ds 0)"
    using scan_digits_all_digit [OF assms(2), of "CHR 0x00" 0 0] by simp
  have lim: "(4300 < length ds) = False" using assms(3) by arith
  show ?thesis
    by (subst long_from_string_unfold [OF dw ng t2]) (simp add: tk sc n assms(1) lim)
qed

lemma py_int_all_digit:
  assumes "ds \<noteq> []" and "\<forall>c\<in>set ds. is_digit c" and "length ds \<le> 4300"
  shows "py_int ds = Inr (digits_value ds 0)"
proof -
  from assms have h: "is_digit (hd ds)" and l: "is_digit (last ds)" by simp_all
  have asc: "\<forall>c\<in>set ds. (of_char c :: nat) < 128"
    using assms(2) by (auto dest: is_digit_ascii)
  have st: "py_strip (map of_char ds) = map of_char ds"
    using assms(1) h l
    by (intro py_strip_id) (simp_all add: hd_map last_map is_digit_not_space)
  show ?thesis
    by (simp add: py_int_def decode_utf8_ascii [OF asc] st int_of_str_ascii [OF asc]
        long_from_string_digits [OF assms])
qed

lemma digits_ne: "digits n \<noteq> []"
  using digits_nonempty [of n] by auto

lemma py_int_pad_left:
  assumes "0 \<le> n" and "n < 10 ^ 10"
  shows "py_int (take 10 (pad_left n 10)) = Inr n"
proof -
  have s: "py_str n = digits (nat n)" using assms(1) by (simp add: py_str_def)
  have "nat n < 10 ^ Suc 9" using assms by (simp add: nat_less_iff)
  then have ld: "length (digits (nat n)) \<le> Suc 9" by (rule length_digits_le)
  then have t: "take 10 (pad_left n 10) = replicate (10 - length (digits (nat n))) (CHR ''0'') @ digits (nat n)"
    by (simp add: pad_left_def s Let_def)
  have z: "is_digit (CHR ''0'')" by (simp add: is_digit_def)
  have "py_int (replicate (10 - length (digits (nat n))) (CHR ''0'') @ digits (nat n))
      = Inr (digits_value (replicate (10 - length (digits (nat n))) (CHR ''0'') @ digits (nat n)) 0)"
    using digits_ne z ld by (intro py_int_all_digit) (auto dest: digits_all_digit)
  then show ?thesis
    unfolding t using assms(1) by (simp add: digits_value_zeros digits_value_digits)
qed

lemma py_str_limited_small:
  assumes "0 \<le> n" and "n < 10 ^ 10"
  shows "py_str_limited n = Inr (py_str n)"
proof -
  have "nat n < 10 ^ Suc 9" using assms by (simp add: nat_less_iff)
  then have "length (digits (nat n)) \<le> Suc 9" by (rule length_digits_le)
  with assms(1) show ?thesis by (simp add: py_str_limited_def)
qed

lemma py_int_py_str:
  assumes "py_str_limited n = Inr t"
  shows "t = py_str n \<and> py_int t = Inr n"
proof -
  from assms have t: "t = py_str n" and lim: "length (digits (nat \<bar>n\<bar>)) \<le> 4300"
    by (auto simp: py_str_limited_def split: if_splits)
  have "py_int (py_str n) = Inr n"
  proof (cases "n < 0")
    case False
    then have s: "py_str n = digits (nat n)" by (simp add: py_str_def)
    from False lim have "length (digits (nat n)) \<le> 4300" by simp
    then have "py_int (digits (nat n)) = Inr (digits_value (digits (nat n)) 0)"
      using digits_ne by (intro py_int_all_digit) (auto dest: digits_all_digit)
    with False show ?thesis by (simp add: s digits_value_digits)
  next
    case True
    define ds where "ds = digits (nat (- n))"
    define u where "u = CHR ''-'' # ds"
    have s: "py_str n = u" using True by (simp add: py_str_def ds_def u_def)
    have ne: "ds \<noteq> []" unfolding ds_def by (rule digits_ne)
    have ad: "\<forall>c\<in>set ds. is_digit c" unfolding ds_def by (auto dest: digits_all_digit)
    have ln: "length ds \<le> 4300" using True lim by (simp add: ds_def)
    from ad ne have l: "is_digit (last ds)" by simp
    have asc: "\<forall>c\<in>set u. (of_char c :: nat) < 128"
      using ad by (auto simp: u_def dest: is_digit_ascii)
    have m: "\<not> py_isspace (of_char (CHR ''-''))" by (simp add: py_isspace_def)
    have une: "map of_char u \<noteq> ([] :: nat list)" by (simp add: u_def)
    have uh: "hd (map of_char u :: nat list) = of_char (CHR ''-'')" by (simp add: u_def)
    have ul: "last (map of_char u :: nat list) = of_char (last ds)"
      using ne by (simp add: u_def last_map)
    have st: "py_strip (map of_char u) = map of_char u"
      using une by (rule py_strip_id) (simp_all only: uh ul m is_digit_not_space [OF l] not_False_eq_True)
    have v: "digits_value ds 0 = - n"
      using True by (simp add: ds_def digits_value_digits)
    have "py_int u = Inr (- digits_value ds 0)"
      unfolding py_int_def decode_utf8_ascii [OF asc] sum.case st int_of_str_ascii [OF asc]
        long_from_string_minus [OF ne ad ln u_def] by simp
    then show ?thesis by (simp add: s v)
  qed
  with t show ?thesis by simp
qed

lemma digit_val_nonneg: "is_digit c \<Longrightarrow> 0 \<le> digit_val c"
  by (simp add: is_digit_def digit_val_def Let_def)

lemma digits_value_nonneg:
  "\<forall>c\<in>set ds. is_digit c \<Longrightarrow> 0 \<le> acc \<Longrightarrow> 0 \<le> digits_value ds acc"
proof (induction ds arbitrary: acc)
  case Nil
  then show ?case by (simp add: digits_value_def)
next
  case (Cons c cs)
  then have "0 \<le> 10 * acc + digit_val c" using digit_val_nonneg [of c] by simp
  with Cons have "0 \<le> digits_value cs (10 * acc + digit_val c)" by simp
  then show ?case by (simp add: digits_value_def)
qed

lemma find_from_first:
  assumes "r < length data" and "data ! r = NL"
  shows "st \<le> r \<Longrightarrow> \<forall>i. st \<le> i \<and> i < r \<longrightarrow> data ! i \<noteq> NL \<Longrightarrow>
         find_from [NL] (drop st data) st = int r"
proof (induction "r - st" arbitrary: st)
  case 0
  then have e: "st = r" by simp
  have "drop r data = data ! r # drop (Suc r) data"
    using assms(1) by (simp add: Cons_nth_drop_Suc)
  then show ?case using assms(2) e by simp
next
  case (Suc d)
  then have lt: "st < r" by simp
  then have sl: "st < length data" using assms(1) by simp
  have dr: "drop st data = data ! st # drop (Suc st) data"
    using sl by (simp add: Cons_nth_drop_Suc)
  have ne: "data ! st \<noteq> NL" using Suc.prems(2) lt by simp
  have "find_from [NL] (drop (Suc st) data) (Suc st) = int r"
  proof (rule Suc.hyps(1))
    show "d = r - Suc st" using Suc.hyps(2) by simp
    show "Suc st \<le> r" using lt by simp
    show "\<forall>i. Suc st \<le> i \<and> i < r \<longrightarrow> data ! i \<noteq> NL" using Suc.prems(2) by simp
  qed
  then show ?case using ne by (simp add: dr)
qed

lemma py_find_first:
  assumes "st \<le> r" and "r < length data" and "data ! r = NL"
    and "\<forall>i. st \<le> i \<and> i < r \<longrightarrow> data ! i \<noteq> NL"
  shows "py_find data [NL] st = int r"
  using find_from_first [OF assms(2,3,1,4)] assms(1,2) by (simp add: py_find_def)

lemma entry_line_D:
  assumes "entry_line buf p"
  shows "p + 20 \<le> length buf"
    and "\<forall>c\<in>set (get_slice buf p (p + 10)). is_digit c"
    and "length (get_slice buf p (p + 10)) = 10"
    and "buf ! (p + 19) = NL"
    and "\<forall>i. p + 10 \<le> i \<and> i < p + 19 \<longrightarrow> buf ! i \<noteq> NL"
proof -
  define l where "l = take 20 (drop p buf)"
  from assms have ll: "length l = 20" and dg: "list_all is_digit (take 10 l)"
    and nn: "list_all (\<lambda>c. c \<noteq> NL) (take 9 (drop 10 l))" and nl: "l ! 19 = NL"
    by (simp_all add: entry_line_def l_def Let_def)
  from ll show len: "p + 20 \<le> length buf" by (simp add: l_def)
  have t10: "take 10 l = get_slice buf p (p + 10)"
    by (simp add: l_def get_slice_10 min_def)
  from dg show "\<forall>c\<in>set (get_slice buf p (p + 10)). is_digit c"
    by (simp add: t10 list_all_iff)
  from len show "length (get_slice buf p (p + 10)) = 10" by (simp add: get_slice_def)
  from nl len show "buf ! (p + 19) = NL" by (simp add: l_def)
  show "\<forall>i. p + 10 \<le> i \<and> i < p + 19 \<longrightarrow> buf ! i \<noteq> NL"
  proof (intro allI impI)
    fix i assume i: "p + 10 \<le> i \<and> i < p + 19"
    define j where "j = i - (p + 10)"
    have j: "j < 9" using i unfolding j_def by linarith
    have ij: "i = p + 10 + j" using i unfolding j_def by linarith
    have "take 9 (drop 10 l) ! j = buf ! i"
      using j len by (simp add: l_def ij add.assoc)
    moreover have "take 9 (drop 10 l) ! j \<in> set (take 9 (drop 10 l))"
      using j ll by (intro nth_mem) simp
    ultimately show "buf ! i \<noteq> NL" using nn by (auto simp: list_all_iff)
  qed
qed

lemma entry_line_cong: "drop p b1 = drop p b2 \<Longrightarrow> entry_line b1 p = entry_line b2 p"
  by (simp add: entry_line_def)

lemma field_value:
  assumes "\<forall>c\<in>set fld. is_digit c" and "length fld = 10"
  shows "py_int fld = Inr (digits_value fld 0) \<and> 0 \<le> digits_value fld 0"
proof -
  from assms(2) have "fld \<noteq> []" and "length fld \<le> 4300" by auto
  from py_int_all_digit [OF this(1) assms(1) this(2)] digits_value_nonneg [OF assms(1), of 0]
  show ?thesis by simp
qed

lemma patch_entries_regular:
  assumes "\<forall>k<n. entry_line buf (c + 20 * k)"
  shows "\<exists>buf'. patch_entries n c out buf = (buf', None) \<and> length buf' = length buf
           \<and> take c buf' = take c buf \<and> drop (c + 20 * n) buf' = drop (c + 20 * n) buf
           \<and> (\<forall>k<n. \<exists>v. 0 \<le> v
                  \<and> py_int (get_slice buf (c + 20 * k) (c + 20 * k + 10)) = Inr v
                  \<and> get_slice buf' (c + 20 * k) (c + 20 * k + 10)
                      = take 10 (pad_left (v + out) 10))"
  using assms
proof (induction n arbitrary: c buf)
  case 0
  then show ?case by simp
next
  case (Suc n)
  from Suc.prems [rule_format, of 0] have e0: "entry_line buf c" by simp
  note d = entry_line_D [OF e0]
  define v where "v = digits_value (get_slice buf c (c + 10)) 0"
  from field_value [OF d(2,3)] have pv: "py_int (get_slice buf c (c + 10)) = Inr v"
    and v0: "0 \<le> v" by (simp_all add: v_def)
  define f where "f = take 10 (pad_left (v + out) 10)"
  define b1 where "b1 = set_slice buf c (c + 10) f"
  have lf: "length f = 10" by (simp add: f_def length_pad_left)
  have nf: "NL \<notin> set f" unfolding f_def by (rule NL_notin_pad_left)
  have cl: "c \<le> length buf" and cl10: "c + 10 \<le> length buf" using d(1) by simp_all
  have t1: "take c b1 = take c buf" unfolding b1_def using cl lf by (rule set_slice_inside(1))
  have g1: "get_slice b1 c (c + 10) = f" unfolding b1_def using cl lf by (rule set_slice_inside(2))
  have d1: "drop (c + 10) b1 = drop (c + 10) buf"
    unfolding b1_def using cl lf cl10 by (rule set_slice_inside(5))
  have l1: "length b1 = length buf"
    unfolding b1_def using cl lf cl10 by (rule set_slice_inside(6))
  have hi: "b1 ! i = buf ! i" if "c + 10 \<le> i" "i < length buf" for i
  proof -
    have "b1 ! i = drop (c + 10) b1 ! (i - (c + 10))" using that l1 by simp
    also have "\<dots> = drop (c + 10) buf ! (i - (c + 10))" by (simp only: d1)
    also have "\<dots> = buf ! i" using that by simp
    finally show ?thesis .
  qed
  have lo: "b1 ! i \<noteq> NL" if "c \<le> i" "i < c + 10" for i
  proof -
    have "f ! (i - c) = take 10 (drop c b1) ! (i - c)"
      using g1 by (simp add: get_slice_10)
    also have "\<dots> = b1 ! i" using that l1 cl10 by simp
    finally have "b1 ! i = f ! (i - c)" by simp
    moreover have "f ! (i - c) \<in> set f" using that lf by (intro nth_mem) simp
    ultimately show ?thesis using nf by auto
  qed
  have "py_find b1 [NL] (c + 1) = int (c + 19)"
  proof (rule py_find_first)
    show "c + 1 \<le> c + 19" by simp
    show "c + 19 < length b1" using d(1) l1 by simp
    show "b1 ! (c + 19) = NL" using hi [of "c + 19"] d(1,4) by simp
    show "\<forall>i. c + 1 \<le> i \<and> i < c + 19 \<longrightarrow> b1 ! i \<noteq> NL"
    proof (intro allI impI)
      fix i assume i: "c + 1 \<le> i \<and> i < c + 19"
      show "b1 ! i \<noteq> NL"
      proof (cases "i < c + 10")
        case True
        with i show ?thesis by (intro lo) simp_all
      next
        case False
        with i d(1) have "b1 ! i = buf ! i" by (intro hi) simp_all
        with False i d(5) show ?thesis by simp
      qed
    qed
  qed
  then have c1: "nat (py_find b1 [NL] (c + 1) + 1) = c + 20" by simp
  have step: "patch_entries (Suc n) c out buf = patch_entries n (c + 20) out b1"
    by (simp only: patch_entries.simps pv sum.case Let_def f_def [symmetric] b1_def [symmetric] c1)
  have rest: "\<forall>k<n. entry_line b1 (c + 20 + 20 * k)"
  proof (intro allI impI)
    fix k assume k: "k < n"
    have e: "entry_line buf (c + 20 + 20 * k)"
      using Suc.prems [rule_format, of "Suc k"] k by (simp add: add.assoc)
    have "drop (c + 20 + 20 * k) b1 = drop (c + 20 + 20 * k) buf"
      using d1 by (rule drop_eq_from) simp
    from entry_line_cong [OF this] e show "entry_line b1 (c + 20 + 20 * k)" by simp
  qed
  from Suc.IH [OF rest] obtain buf' where
    r1: "patch_entries n (c + 20) out b1 = (buf', None)" and
    r2: "length buf' = length b1" and
    r3: "take (c + 20) buf' = take (c + 20) b1" and
    r4: "drop (c + 20 + 20 * n) buf' = drop (c + 20 + 20 * n) b1" and
    r5: "\<forall>k<n. \<exists>w. 0 \<le> w
            \<and> py_int (get_slice b1 (c + 20 + 20 * k) (c + 20 + 20 * k + 10)) = Inr w
            \<and> get_slice buf' (c + 20 + 20 * k) (c + 20 + 20 * k + 10)
                = take 10 (pad_left (w + out) 10)"
    by (elim exE conjE) (rule that)
  have A: "patch_entries (Suc n) c out buf = (buf', None)" by (simp only: step r1)
  have B: "length buf' = length buf" by (simp only: r2 l1)
  have "take c buf' = take c b1" using r3 by (rule take_eq_from) simp
  then have C: "take c buf' = take c buf" by (simp only: t1)
  have e: "c + 20 * Suc n = c + 20 + 20 * n" by simp
  have "drop (c + 20 + 20 * n) b1 = drop (c + 20 + 20 * n) buf"
    using d1 by (rule drop_eq_from) simp
  then have D: "drop (c + 20 * Suc n) buf' = drop (c + 20 * Suc n) buf"
    unfolding e by (simp only: r4)
  have E: "\<exists>w. 0 \<le> w \<and> py_int (get_slice buf (c + 20 * k) (c + 20 * k + 10)) = Inr w
              \<and> get_slice buf' (c + 20 * k) (c + 20 * k + 10) = take 10 (pad_left (w + out) 10)"
    if "k < Suc n" for k
  proof (cases k)
    case 0
    have "take (c + 10) buf' = take (c + 10) b1" using r3 by (rule take_eq_from) simp
    then have "get_slice buf' c (c + 10) = get_slice b1 c (c + 10)" by (simp add: get_slice_def)
    then have "get_slice buf' c (c + 10) = take 10 (pad_left (v + out) 10)"
      by (simp only: g1 f_def)
    with pv v0 show ?thesis unfolding 0 by (intro exI [of _ v]) simp
  next
    case (Suc j)
    with that have "j < n" by simp
    with r5 obtain w where w0: "0 \<le> w" and
      w1: "py_int (get_slice b1 (c + 20 + 20 * j) (c + 20 + 20 * j + 10)) = Inr w" and
      w2: "get_slice buf' (c + 20 + 20 * j) (c + 20 + 20 * j + 10) = take 10 (pad_left (w + out) 10)"
      by blast
    have "drop (c + 20 + 20 * j) b1 = drop (c + 20 + 20 * j) buf"
      using d1 by (rule drop_eq_from) simp
    then have "get_slice b1 (c + 20 + 20 * j) (c + 20 + 20 * j + 10)
                 = get_slice buf (c + 20 + 20 * j) (c + 20 + 20 * j + 10)"
      by (simp only: get_slice_10)
    with w1 have w1': "py_int (get_slice buf (c + 20 + 20 * j) (c + 20 + 20 * j + 10)) = Inr w"
      by simp
    have k: "c + 20 * k = c + 20 + 20 * j" using Suc by simp
    show ?thesis unfolding k using w0 w1' w2 by (intro exI [of _ w]) simp
  qed
  from A B C D E show ?case by (intro exI [of _ buf']) simp
qed

lemma pdf_tail_regular:
  assumes "pdf_tail pdf fs = (tail, None)"
    and "out = int fs + int (length object_terminator)"
    and "single_section (object_terminator @ pdf)"
  shows "(\<forall>p\<in>set (entry_lines (object_terminator @ pdf)).
            \<exists>v. 0 \<le> v \<and> py_int (get_slice (object_terminator @ pdf) p (p + 10)) = Inr v
               \<and> get_slice tail p (p + 10) = take 10 (pad_left (v + out) 10))
       \<and> (\<exists>v. py_int (get_slice (object_terminator @ pdf) (trailer_pos (object_terminator @ pdf))
                        (trailer_end (object_terminator @ pdf))) = Inr v
              \<and> py_str_limited (v + out) = Inr (py_str (v + out))
              \<and> get_slice tail (trailer_pos (object_terminator @ pdf))
                   (trailer_pos (object_terminator @ pdf) + length (py_str (v + out)))
                  = py_str (v + out))"
proof -
  define b where "b = object_terminator @ pdf"
  obtain x o' s e where an: "xref_anchors b = (x, o', s, e)"
    by (cases "xref_anchors b") auto
  note an' = an [unfolded b_def]
  from pdf_tail_success [OF assms(1) an'] obtain count buf1 where
    px: "0 < x" and po: "0 < o'" and ps: "0 < s" and pe: "0 < e" and
    cnt: "xref_count (get_slice b (nat x) (nat o')) = Inr count" and
    ent: "patch_entries (nat count) (nat o') out b = (buf1, None)" and
    trl: "patch_startxref buf1 (nat s) (nat e) out = (tail, None)"
    unfolding b_def [symmetric] assms(2) [symmetric] by (elim exE conjE) (rule that)
  from assms(3) have el: "entry_lines b = map (\<lambda>k. nat o' + 20 * k) [0..<nat count]"
    and bs: "nat o' + 20 * nat count \<le> nat s"
    by (simp_all add: single_section_def b_def [symmetric] an cnt)
  have tp: "trailer_pos b = nat s + 10" by (simp add: trailer_pos_def an)
  have te: "trailer_end b = nat e" by (simp add: trailer_end_def an)
  have reg: "\<forall>k<nat count. entry_line b (nat o' + 20 * k)"
  proof (intro allI impI)
    fix k assume "k < nat count"
    then have "nat o' + 20 * k \<in> set (entry_lines b)" unfolding el by simp
    then show "entry_line b (nat o' + 20 * k)" by (simp add: entry_lines_def)
  qed
  from patch_entries_regular [OF reg, of out] ent obtain
    l1: "length buf1 = length b" and
    d0: "drop (nat o' + 20 * nat count) buf1 = drop (nat o' + 20 * nat count) b" and
    fs: "\<forall>k<nat count. \<exists>v. 0 \<le> v
            \<and> py_int (get_slice b (nat o' + 20 * k) (nat o' + 20 * k + 10)) = Inr v
            \<and> get_slice buf1 (nat o' + 20 * k) (nat o' + 20 * k + 10)
                = take 10 (pad_left (v + out) 10)"
    by auto
  from startxref_end_bounds [OF an pe ps]
  have se: "nat s + 10 < nat e" and eb: "nat e < length b" by simp_all
  have d1: "drop (nat s + 10) buf1 = drop (nat s + 10) b"
    using d0 by (rule drop_eq_from) (use bs in simp)
  have sl: "nat s + 10 \<le> length buf1" using se eb l1 by simp
  from patch_startxref_success [OF trl sl] obtain v where
    v: "py_int (get_slice buf1 (nat s + 10) (nat e)) = Inr v" and
    lim: "py_str_limited (v + out) = Inr (py_str (v + out))" and
    tk: "take (nat s + 10) tail = take (nat s + 10) buf1" and
    nw: "get_slice tail (nat s + 10) (nat s + 10 + length (py_str (v + out))) = py_str (v + out)"
    by (elim exE conjE) (rule that)
  have "get_slice buf1 (nat s + 10) (nat e) = get_slice b (nat s + 10) (nat e)"
    by (simp only: get_slice_drop d1)
  with v have v': "py_int (get_slice b (nat s + 10) (nat e)) = Inr v" by simp
  have ents: "\<exists>w. 0 \<le> w \<and> py_int (get_slice b p (p + 10)) = Inr w
               \<and> get_slice tail p (p + 10) = take 10 (pad_left (w + out) 10)"
    if "p \<in> set (entry_lines b)" for p
  proof -
    from that obtain k where k: "k < nat count" and p: "p = nat o' + 20 * k"
      unfolding el by auto
    from fs k obtain w where w0: "0 \<le> w" and
      w: "py_int (get_slice b p (p + 10)) = Inr w" and
      g: "get_slice buf1 p (p + 10) = take 10 (pad_left (w + out) 10)"
      unfolding p by blast
    from k bs have "p + 10 \<le> nat s + 10" unfolding p by simp
    with tk have "take (p + 10) tail = take (p + 10) buf1" by (rule take_eq_from)
    then have "get_slice tail p (p + 10) = get_slice buf1 p (p + 10)" by (simp add: get_slice_def)
    with w0 w g show ?thesis by auto
  qed
  show ?thesis
    unfolding b_def [symmetric] tp te using ents v' lim nw by blast
qed

section \<open>Reading numbers\<close>

text \<open>
  The reading of a numeric field follows the interpreter beyond ASCII: a decimal digit of
  another script is a digit, an undecodable byte raises before anything is read, and a
  field of more than 4300 digits is refused.
\<close>

lemma py_int_other_script: "py_int [CHR 0xD9, CHR 0xA3] = Inr 3"
  by (simp add: py_int_def decode_utf8_def is_cont_def py_strip_def py_isspace_def int_of_str_def
      to_decimal_def decimal_zeros_def long_from_string_def c_isspace_def is_digit_def
      digit_char_def digit_val_def Let_def char_of_def bit_Suc_0_iff)

lemma xref_count_undecodable:
  "xref_count (''xref'' @ [CHR 0xC3, NL] @ ''0 2'' @ [NL]) = Inl UnicodeDecodeError"
  by (simp add: xref_count_def decode_utf8_def is_cont_def NL_def)

lemma py_int_too_long:
  assumes "\<forall>c\<in>set ds. is_digit c" and "4300 < length ds"
  shows "py_int ds = Inl ValueError"
proof -
  obtain d rest where ds: "ds = d # rest" using assms(2) by (cases ds) auto
  with assms(1) have d: "is_digit d" by simp
  from assms(2) have ne: "ds \<noteq> []" by auto
  with assms(1) have h: "is_digit (hd ds)" and l: "is_digit (last ds)" by simp_all
  have asc: "\<forall>c\<in>set ds. (of_char c :: nat) < 128"
    using assms(1) by (auto dest: is_digit_ascii)
  have st: "py_strip (map of_char ds) = map of_char ds"
    using ne h l by (intro py_strip_id) (simp_all add: hd_map last_map is_digit_not_space)
  note n = is_digit_not_sign [OF d]
  have dw: "dropWhile c_isspace ds = ds"
    using is_digit_not_blank [OF d] by (simp add: ds)
  have t2: "ds = (if take 1 ds = ''+'' \<or> take 1 ds = ''-'' then drop 1 ds else ds)"
    using n by (simp add: ds)
  have ng: "False = (take 1 ds = ''-'')" using n by (simp add: ds)
  have tk: "take (Suc 0) ds = [d]" by (simp add: ds)
  have sc: "scan_digits ds (CHR 0x00) 0 0 = Some ([], length ds, digits_value ds 0)"
    using scan_digits_all_digit [OF assms(1), of "CHR 0x00" 0 0] by simp
  have "long_from_string ds = None"
    by (subst long_from_string_unfold [OF dw ng t2]) (simp add: tk sc n assms(2))
  then show ?thesis
    by (simp add: py_int_def decode_utf8_ascii [OF asc] st int_of_str_ascii [OF asc])
qed

section \<open>The patched offsets\<close>

text \<open>
  C4 (as amended). In a completed run with a document whose patch succeeds and whose
  cross-reference table is a single section (\<open>single_section\<close>), let \<open>prepended\<close> be the
  length of the header region, the wrapper box, the media remainder and the terminator
  together. Every entry of the document, holding the number \<open>v\<close> in the original, holds in
  the appended tail the first ten characters of the zero-padded decimal of
  \<open>v + prepended\<close>, which read back as \<open>v + prepended\<close> whenever that number has at most
  ten digits; and the trailer pointer, holding \<open>v\<close> in the original, holds the decimal of
  \<open>v + prepended\<close>.
\<close>

theorem patched_offsets:
  assumes "main inp = Some (Inr r)" and "pdf_file inp = Some pdf" and "caught r = None"
    and "prepended = int (length (ftyp_buffer r) + length (skip_atom r) + length (rest_bytes r)
                          + length object_terminator)"
    and "single_section (object_terminator @ pdf)"
  shows "\<exists>tail. pdf_buffer r = Some tail
      \<and> (\<forall>p\<in>set (entry_lines (object_terminator @ pdf)).
            \<exists>v. py_int (get_slice (object_terminator @ pdf) p (p + 10)) = Inr v
               \<and> get_slice tail p (p + 10) = take 10 (pad_left (v + prepended) 10)
               \<and> (v + prepended < 10 ^ 10
                    \<longrightarrow> py_int (get_slice tail p (p + 10)) = Inr (v + prepended)))
      \<and> (\<exists>v. py_int (get_slice (object_terminator @ pdf) (trailer_pos (object_terminator @ pdf))
                        (trailer_end (object_terminator @ pdf))) = Inr v
             \<and> get_slice tail (trailer_pos (object_terminator @ pdf))
                  (trailer_pos (object_terminator @ pdf) + length (py_str (v + prepended)))
                 = py_str (v + prepended)
             \<and> py_int (get_slice tail (trailer_pos (object_terminator @ pdf))
                  (trailer_pos (object_terminator @ pdf) + length (py_str (v + prepended))))
                 = Inr (v + prepended))"
proof -
  define fs where "fs = length (zeroed r)"
  define tail where "tail = fst (pdf_tail pdf fs)"
  have b: "pdf_buffer r = Some tail"
    using main_Inr(4) [OF assms(1)] by (simp add: assms(2) tail_def fs_def)
  have "snd (pdf_tail pdf fs) = None"
    using main_Inr(5) [OF assms(1)] assms(3) by (simp add: assms(2) fs_def)
  then have pt: "pdf_tail pdf fs = (tail, None)" by (simp add: tail_def prod_eq_iff)
  from out_layout [OF assms(1)] have "zeroed r = (final_mp4 r)[3 := NUL]"
    by (elim exE conjE)
  then have "fs = length (ftyp_buffer r) + length (skip_atom r) + length (rest_bytes r)"
    by (simp add: fs_def main_Inr(2) [OF assms(1)])
  then have out: "prepended = int fs + int (length object_terminator)"
    by (simp add: assms(4))
  have p0: "0 \<le> prepended" by (simp add: assms(4))
  from pdf_tail_regular [OF pt out assms(5)]
  have ents: "\<forall>p\<in>set (entry_lines (object_terminator @ pdf)).
            \<exists>v. 0 \<le> v \<and> py_int (get_slice (object_terminator @ pdf) p (p + 10)) = Inr v
               \<and> get_slice tail p (p + 10) = take 10 (pad_left (v + prepended) 10)"
    and trl: "\<exists>v. py_int (get_slice (object_terminator @ pdf) (trailer_pos (object_terminator @ pdf))
                        (trailer_end (object_terminator @ pdf))) = Inr v
              \<and> py_str_limited (v + prepended) = Inr (py_str (v + prepended))
              \<and> get_slice tail (trailer_pos (object_terminator @ pdf))
                   (trailer_pos (object_terminator @ pdf) + length (py_str (v + prepended)))
                  = py_str (v + prepended)"
    by simp_all
  have E: "\<exists>v. py_int (get_slice (object_terminator @ pdf) p (p + 10)) = Inr v
               \<and> get_slice tail p (p + 10) = take 10 (pad_left (v + prepended) 10)
               \<and> (v + prepended < 10 ^ 10
                    \<longrightarrow> py_int (get_slice tail p (p + 10)) = Inr (v + prepended))"
    if "p \<in> set (entry_lines (object_terminator @ pdf))" for p
  proof -
    from ents that obtain v where v0: "0 \<le> v" and
      v: "py_int (get_slice (object_terminator @ pdf) p (p + 10)) = Inr v" and
      g: "get_slice tail p (p + 10) = take 10 (pad_left (v + prepended) 10)"
      by blast
    have "py_int (get_slice tail p (p + 10)) = Inr (v + prepended)"
      if "v + prepended < 10 ^ 10"
      unfolding g using that v0 p0 by (intro py_int_pad_left) simp_all
    with v g show ?thesis by blast
  qed
  from trl obtain w where
    w: "py_int (get_slice (object_terminator @ pdf) (trailer_pos (object_terminator @ pdf))
                        (trailer_end (object_terminator @ pdf))) = Inr w" and
    lw: "py_str_limited (w + prepended) = Inr (py_str (w + prepended))" and
    gw: "get_slice tail (trailer_pos (object_terminator @ pdf))
                   (trailer_pos (object_terminator @ pdf) + length (py_str (w + prepended)))
                  = py_str (w + prepended)"
    by blast
  have "py_int (get_slice tail (trailer_pos (object_terminator @ pdf))
                  (trailer_pos (object_terminator @ pdf) + length (py_str (w + prepended))))
                 = Inr (w + prepended)"
    unfolding gw using py_int_py_str [OF lw] by simp
  with b E w gw show ?thesis by blast
qed

lemma sample_table:
  "single_section (object_terminator @ sample_document)
   \<and> entry_lines (object_terminator @ sample_document) = [56, 76]
   \<and> trailer_pos (object_terminator @ sample_document) = 126
   \<and> trailer_end (object_terminator @ sample_document) = 128"
  by code_simp

lemma sample_originals:
  "py_int (get_slice (object_terminator @ sample_document) 56 66) = Inr 0
   \<and> py_int (get_slice (object_terminator @ sample_document) 76 86) = Inr 9
   \<and> py_int (get_slice (object_terminator @ sample_document) 126 128) = Inr 29"
  by code_simp

theorem patched_offsets_witness:
  "\<exists>r tail. main sample_pdf = Some (Inr r) \<and> pdf_file sample_pdf = Some sample_document
      \<and> caught r = None \<and> pdf_buffer r = Some tail
      \<and> single_section (object_terminator @ sample_document)
      \<and> entry_lines (object_terminator @ sample_document) = [56, 76]
      \<and> trailer_pos (object_terminator @ sample_document) = 126
      \<and> py_int (get_slice tail 56 66) = Inr 321
      \<and> py_int (get_slice tail 76 86) = Inr 330
      \<and> py_int (get_slice tail 126 129) = Inr 350"
proof -
  from sample_pdf_completes obtain r where r: "main sample_pdf = Some (Inr r)" ..
  note sz = sample_pdf_sizes [OF r]
  have p: "pdf_file sample_pdf = Some sample_document" by (simp add: sample_pdf_def)
  have c: "caught r = None"
    using main_Inr(5) [OF r] sample_document_tail by (simp add: p sz)
  have "length (ftyp_buffer r) + length (skip_atom r) + length (rest_bytes r) = 303"
    using sz(1) by (simp add: main_Inr(2) [OF r])
  then have pre: "(321::int) = int (length (ftyp_buffer r) + length (skip_atom r) + length (rest_bytes r)
                          + length object_terminator)"
    by (simp add: object_terminator_def)
  note st = sample_table
  from patched_offsets [OF r p c pre st [THEN conjunct1]] obtain tail where
    T: "pdf_buffer r = Some tail
      \<and> (\<forall>p\<in>set (entry_lines (object_terminator @ sample_document)).
            \<exists>v. py_int (get_slice (object_terminator @ sample_document) p (p + 10)) = Inr v
               \<and> get_slice tail p (p + 10) = take 10 (pad_left (v + 321) 10)
               \<and> (v + 321 < 10 ^ 10
                    \<longrightarrow> py_int (get_slice tail p (p + 10)) = Inr (v + 321)))
      \<and> (\<exists>v. py_int (get_slice (object_terminator @ sample_document) (trailer_pos (object_terminator @ sample_document))
                        (trailer_end (object_terminator @ sample_document))) = Inr v
             \<and> get_slice tail (trailer_pos (object_terminator @ sample_document))
                  (trailer_pos (object_terminator @ sample_document) + length (py_str (v + 321)))
                 = py_str (v + 321)
             \<and> py_int (get_slice tail (trailer_pos (object_terminator @ sample_document))
                  (trailer_pos (object_terminator @ sample_document) + length (py_str (v + 321))))
                 = Inr (v + 321))" ..
  note t = T [THEN conjunct1]
  note e = T [THEN conjunct2, THEN conjunct1]
  note w = T [THEN conjunct2, THEN conjunct2]
  from e have "py_int (get_slice tail 56 66) = Inr 321"
    using sample_originals by (auto simp: st)
  moreover from e have "py_int (get_slice tail 76 86) = Inr 330"
    using sample_originals by (auto simp: st)
  moreover have "length (py_str 350) = 3" by (simp add: py_str_def digits.simps)
  with w have "py_int (get_slice tail 126 129) = Inr 350"
    using sample_originals by (auto simp: st)
  ultimately show ?thesis using r p c t st by blast
qed

lemma attached_run:
  assumes "inp = sample_plain \<lparr> pdf_file := Some d \<rparr>" and "9 \<le> length d"
  shows "\<exists>r. main inp = Some (Inr r)"
    and "main inp = Some (Inr r) \<Longrightarrow> length (final_mp4 r) = 303 \<and> length (zeroed r) = 303"
proof -
  have f: "exact_fit 303 36 0 (33 - int (Suc 0))"
    by (simp add: exact_fit_def length_obj_string py_str_def digits.simps)
  have "fit_obj_string 303 36 0 33 = Some (33 - int (Suc 0), obj_string (303 - 36 - 0 - (33 - int (Suc 0))))"
    using f by (rule fit_obj_string_first) simp
  then have ne: "fit_obj_string 303 36 0 33 \<noteq> None" by simp
  have l: "30 + int (length (py_str 303)) = 33"
    by (simp add: py_str_def digits.simps)
  have e: "encode_utf8 (html_markup (html_file inp)) = Inr []"
    by (simp add: assms(1) sample_plain_def html_markup_def)
  have m: "(303::nat) = 288 + (length ([]::bytes) + length (png_file inp) + 8)
               + length (drop (from_bytes_be (get_slice (mp4_file inp) 0 4)) (mp4_file inp))"
    by (simp add: assms(1) sample_plain_def get_slice_def from_bytes_be_def NUL_def)
  have x: "extra_bytes_of inp = []"
    by (simp add: assms(1) sample_plain_def extra_bytes_of_def)
  show "\<exists>r. main inp = Some (Inr r)"
  proof (rule main_pdf_outcome(2) [OF _ e _ _ _ m])
    show "fit_obj_string (int 303) (int (36 + length (extra_bytes_of inp)))
             (int (length (extra_bytes_of inp))) (30 + int (length (py_str (int 303)))) \<noteq> None"
      using ne l by (simp add: x)
  qed (simp_all add: assms(1) sample_plain_def extra_bytes_of_def)
  show "length (final_mp4 r) = 303 \<and> length (zeroed r) = 303" if r: "main inp = Some (Inr r)"
  proof -
    from out_layout [OF r] obtain hb sf sfx where
      hb: "encode_utf8 (html_markup (html_file inp)) = Inr hb" and sf: "length sf = 4" and
      sk: "skip_atom r = sf @ ''skip'' @ hb @ png_file inp" and
      z: "zeroed r = (final_mp4 r)[3 := NUL]"
      by (elim exE conjE) (rule that)
    have "hb = []" using hb e by simp
    then have ls: "length (skip_atom r) = 11"
      by (simp add: sk sf assms(1) sample_plain_def)
    have "rest_bytes r = drop (from_bytes_be (get_slice (mp4_file inp) 0 4)) (mp4_file inp)"
      using assemble_Inr [OF main_Inr(1) [OF r]] by (elim exE conjE)
    then have lr: "length (rest_bytes r) = 4"
      by (simp add: assms(1) sample_plain_def get_slice_def from_bytes_be_def NUL_def)
    have "splices_fit inp r"
      using assms(2)
      by (simp add: splices_fit_def assms(1) sample_plain_def extra_bytes_of_def ls lr
          py_str_def digits.simps)
    from header_288 [OF r this] have lh: "length (ftyp_buffer r) = 288" .
    have "length (final_mp4 r) = 303" by (simp add: main_Inr(2) [OF r] lh ls lr)
    then show ?thesis by (simp add: z)
  qed
qed

lemma two_section_tail:
  "snd (pdf_tail two_section_document 303) = None
   \<and> get_slice (fst (pdf_tail two_section_document 303)) 80 90 = ''0000000009''
   \<and> entry_lines (object_terminator @ two_section_document) = [56, 80]
   \<and> py_int (get_slice (object_terminator @ two_section_document) 80 90) = Inr 9"
  by code_simp

lemma sample_far_completes: "\<exists>r. main sample_far = Some (Inr r)"
proof -
  have f: "exact_fit 303 36 0 (33 - int (Suc 0))"
    by (simp add: exact_fit_def length_obj_string py_str_def digits.simps)
  have "fit_obj_string 303 36 0 33 = Some (33 - int (Suc 0), obj_string (303 - 36 - 0 - (33 - int (Suc 0))))"
    using f by (rule fit_obj_string_first) simp
  then have ne: "fit_obj_string 303 36 0 33 \<noteq> None" by simp
  have l: "30 + int (length (py_str 303)) = 33"
    by (simp add: py_str_def digits.simps)
  have e: "encode_utf8 (html_markup (html_file sample_far)) = Inr []"
    by (simp add: sample_far_def sample_plain_def html_markup_def)
  have m: "(303::nat) = 288 + (length ([]::bytes) + length (png_file sample_far) + 8)
               + length (drop (from_bytes_be (get_slice (mp4_file sample_far) 0 4)) (mp4_file sample_far))"
    by (simp add: sample_far_def sample_plain_def get_slice_def from_bytes_be_def NUL_def)
  have x: "extra_bytes_of sample_far = []"
    by (simp add: sample_far_def sample_plain_def extra_bytes_of_def)
  show ?thesis
  proof (rule main_pdf_outcome(2) [OF _ e _ _ _ m])
    show "fit_obj_string (int 303) (int (36 + length (extra_bytes_of sample_far)))
             (int (length (extra_bytes_of sample_far))) (30 + int (length (py_str (int 303)))) \<noteq> None"
      using ne l by (simp add: x)
  qed (simp_all add: sample_far_def sample_plain_def extra_bytes_of_def)
qed

lemma sample_far_sizes:
  assumes "main sample_far = Some (Inr r)"
  shows "length (final_mp4 r) = 303" and "length (zeroed r) = 303"
proof -
  from out_layout [OF assms] obtain hb sf sfx where
    hb: "encode_utf8 (html_markup (html_file sample_far)) = Inr hb" and sf: "length sf = 4" and
    sk: "skip_atom r = sf @ ''skip'' @ hb @ png_file sample_far" and
    z: "zeroed r = (final_mp4 r)[3 := NUL]"
    by (elim exE conjE) (rule that)
  have "hb = []" using hb by (simp add: sample_far_def sample_plain_def html_markup_def)
  then have ls: "length (skip_atom r) = 11"
    by (simp add: sk sf sample_far_def sample_plain_def)
  have "rest_bytes r = drop (from_bytes_be (get_slice (mp4_file sample_far) 0 4)) (mp4_file sample_far)"
    using assemble_Inr [OF main_Inr(1) [OF assms]] by (elim exE conjE)
  then have lr: "length (rest_bytes r) = 4"
    by (simp add: sample_far_def sample_plain_def get_slice_def from_bytes_be_def NUL_def)
  have "splices_fit sample_far r"
    by (simp add: splices_fit_def sample_far_def sample_plain_def extra_bytes_of_def ls lr
        far_document_def py_str_def digits.simps)
  from header_288 [OF assms this] have lh: "length (ftyp_buffer r) = 288" .
  show "length (final_mp4 r) = 303" by (simp add: main_Inr(2) [OF assms] lh ls lr)
  then show "length (zeroed r) = 303" by (simp add: z)
qed

lemma pdf_tail_unfold:
  assumes "xref_anchors (object_terminator @ pdf) = (x, o', s, e)"
  shows "pdf_tail pdf fs =
      (if min (min x o') (min s e) \<le> 0 then (object_terminator @ pdf, Some XrefNotFound)
       else (case xref_count (get_slice (object_terminator @ pdf) (nat x) (nat o')) of
               Inl e \<Rightarrow> (object_terminator @ pdf, Some e)
             | Inr count \<Rightarrow>
                 (case patch_entries (nat count) (nat o') (int fs + int (length object_terminator))
                         (object_terminator @ pdf) of
                    (buf, Some e) \<Rightarrow> (buf, Some e)
                  | (buf, None) \<Rightarrow>
                      patch_startxref buf (nat s) (nat e) (int fs + int (length object_terminator)))))"
proof -
  let ?b = "object_terminator @ pdf"
  have x: "x = find_sub_array_index ?b ([NL] @ ''xref'') 0 + 1"
    and o: "o' = find_sub_array_index ?b ([NL] @ ''0000000000'') (nat x) + 1"
    and s: "s = find_sub_array_index ?b ([NL] @ ''startxref'') (nat x) + 1"
    and e: "e = py_find ?b [NL] (nat (s + 11))"
    using assms by (auto simp: xref_anchors_def Let_def)
  show ?thesis
    unfolding pdf_tail_def Let_def x [symmetric] o [symmetric] s [symmetric] e [symmetric] ..
qed

lemma far_anchors:
  "xref_anchors (object_terminator @ far_document) = (47, 56, 116, 128)
   \<and> xref_count (get_slice (object_terminator @ far_document) 47 56) = Inr 2
   \<and> py_int (get_slice (object_terminator @ far_document) 56 66) = Inr 0
   \<and> length (object_terminator @ far_document) = 135"
  by code_simp

lemma far_first_step:
  "py_find (set_slice (object_terminator @ far_document) 56 66 (take 10 (pad_left 321 10))) [NL] 57 = 75
   \<and> py_int (get_slice (set_slice (object_terminator @ far_document) 56 66 (take 10 (pad_left 321 10))) 76 86)
       = Inr 9999999999
   \<and> py_int (get_slice (set_slice (object_terminator @ far_document) 56 66 (take 10 (pad_left 321 10))) 126 128)
       = Inr 29
   \<and> length (set_slice (object_terminator @ far_document) 56 66 (take 10 (pad_left 321 10))) = 135"
  by code_simp

lemma far_field: "take 10 (pad_left 10000000320 10) = ''1000000032''"
  by (simp add: pad_left_def py_str_def digits.simps digit_char_def char_of_def bit_Suc_0_iff)

lemma far_document_tail:
  "snd (pdf_tail far_document 303) = None
   \<and> get_slice (fst (pdf_tail far_document 303)) 76 86 = ''1000000032''"
proof -
  define b where "b = object_terminator @ far_document"
  define b1 where "b1 = set_slice b 56 66 (take 10 (pad_left 321 10))"
  define f where "f = take 10 (pad_left 10000000320 10)"
  define b2 where "b2 = set_slice b1 76 (76 + 10) f"
  note a = far_anchors [folded b_def]
  note s1 = far_first_step [folded b_def, folded b1_def]
  have lf: "length f = 10" by (simp add: f_def length_pad_left)
  have l1: "76 \<le> length b1" using s1 by simp
  have e1: "patch_entries (Suc (Suc 0)) 56 321 b = patch_entries (Suc 0) 76 321 b1"
    using a s1 by (simp add: Let_def b1_def)
  have e2: "patch_entries (Suc 0) 76 321 b1 = (b2, None)"
    using s1 by (simp add: Let_def b2_def f_def)
  have ent: "patch_entries (nat 2) (nat 56) (int 303 + int (length object_terminator)) b = (b2, None)"
    using e1 e2 by (simp add: object_terminator_def numeral_2_eq_2)
  have l1': "76 + 10 \<le> length b1" using s1 by simp
  have d: "drop (76 + 10) b2 = drop (76 + 10) b1"
    unfolding b2_def using l1 lf l1' by (rule set_slice_inside(5))
  have "get_slice b2 126 128 = get_slice b1 126 128"
    using drop_eq_from [OF d, of 126] by (simp add: get_slice_drop)
  with s1 have v: "py_int (get_slice b2 (116 + 10) 128) = Inr 29" by simp
  have "py_str_limited (29 + 321) = Inr (py_str (29 + 321))"
    by (rule py_str_limited_small) simp_all
  then obtain tail where tr: "patch_startxref b2 116 128 321 = (tail, None)"
    using v by (simp add: patch_startxref_def Let_def)
  have l2: "116 + 10 \<le> length b2"
    using set_slice_inside(3) [OF l1 lf] s1 by (simp add: b2_def)
  from patch_startxref_success [OF tr l2]
  have tk: "take (116 + 10) tail = take (116 + 10) b2" by (elim exE conjE)
  have "take (76 + 10) tail = take (76 + 10) b2" using tk by (rule take_eq_from) simp
  then have "get_slice tail 76 (76 + 10) = get_slice b2 76 (76 + 10)" by (simp add: get_slice_def)
  also have "\<dots> = f" unfolding b2_def using l1 lf by (rule set_slice_inside(2))
  finally have g: "get_slice tail 76 86 = ''1000000032''" by (simp add: f_def far_field)
  have "pdf_tail far_document 303 = (tail, None)"
    using a ent tr
    by (simp add: pdf_tail_unfold [of far_document 47 56 116 128, folded b_def] object_terminator_def)
  with g show ?thesis by simp
qed

lemma far_table: "single_section (object_terminator @ far_document)"
  by code_simp

theorem patched_offsets_counterexample:
  "(case main sample_far of
      Some (Inr r) \<Rightarrow>
        caught r = None
        \<and> single_section (object_terminator @ far_document)
        \<and> py_int (get_slice (object_terminator @ far_document) 76 86) = Inr 9999999999
        \<and> length (ftyp_buffer r) + length (skip_atom r) + length (rest_bytes r)
            + length object_terminator = 321
        \<and> map_option (\<lambda>tail. get_slice tail 76 86) (pdf_buffer r) = Some ''1000000032''
    | _ \<Rightarrow> False)
   \<and> (case main sample_two_sections of
      Some (Inr r) \<Rightarrow>
        caught r = None
        \<and> entry_lines (object_terminator @ two_section_document) = [56, 80]
        \<and> py_int (get_slice (object_terminator @ two_section_document) 80 90) = Inr 9
        \<and> length (ftyp_buffer r) + length (skip_atom r) + length (rest_bytes r)
            + length object_terminator = 321
        \<and> map_option (\<lambda>tail. get_slice tail 80 90) (pdf_buffer r) = Some ''0000000009''
    | _ \<Rightarrow> False)"
proof -
  from sample_far_completes obtain r where r: "main sample_far = Some (Inr r)" ..
  note sz = sample_far_sizes [OF r]
  have p: "pdf_file sample_far = Some far_document" by (simp add: sample_far_def)
  have c: "caught r = None"
    using main_Inr(5) [OF r] far_document_tail by (simp add: p sz)
  have b: "pdf_buffer r = Some (fst (pdf_tail far_document 303))"
    using main_Inr(4) [OF r] by (simp add: p sz)
  have o: "py_int (get_slice (object_terminator @ far_document) 76 86) = Inr 9999999999"
    by code_simp
  have l: "length (ftyp_buffer r) + length (skip_atom r) + length (rest_bytes r)
            + length object_terminator = 321"
    using sz(1) by (simp add: main_Inr(2) [OF r] object_terminator_def)
  have one: "(case main sample_far of
      Some (Inr r) \<Rightarrow>
        caught r = None
        \<and> single_section (object_terminator @ far_document)
        \<and> py_int (get_slice (object_terminator @ far_document) 76 86) = Inr 9999999999
        \<and> length (ftyp_buffer r) + length (skip_atom r) + length (rest_bytes r)
            + length object_terminator = 321
        \<and> map_option (\<lambda>tail. get_slice tail 76 86) (pdf_buffer r) = Some ''1000000032''
    | _ \<Rightarrow> False)"
    using c b o l far_document_tail far_table by (simp add: r)
  have i2: "sample_two_sections = sample_plain \<lparr> pdf_file := Some two_section_document \<rparr>"
    by (simp add: sample_two_sections_def)
  have n2: "9 \<le> length two_section_document" by (simp add: two_section_document_def)
  from attached_run(1) [OF i2 n2] obtain r2 where r2: "main sample_two_sections = Some (Inr r2)" ..
  from attached_run(2) [OF i2 n2 r2]
  have sz2: "length (final_mp4 r2) = 303" "length (zeroed r2) = 303" by simp_all
  have p2: "pdf_file sample_two_sections = Some two_section_document"
    by (simp add: sample_two_sections_def)
  have c2: "caught r2 = None"
    using main_Inr(5) [OF r2] two_section_tail by (simp add: p2 sz2)
  have b2: "pdf_buffer r2 = Some (fst (pdf_tail two_section_document 303))"
    using main_Inr(4) [OF r2] by (simp add: p2 sz2)
  have l2: "length (ftyp_buffer r2) + length (skip_atom r2) + length (rest_bytes r2)
            + length object_terminator = 321"
    using sz2(1) by (simp add: main_Inr(2) [OF r2] object_terminator_def)
  have two: "(case main sample_two_sections of
      Some (Inr r) \<Rightarrow>
        caught r = None
        \<and> entry_lines (object_terminator @ two_section_document) = [56, 80]
        \<and> py_int (get_slice (object_terminator @ two_section_document) 80 90) = Inr 9
        \<and> length (ftyp_buffer r) + length (skip_atom r) + length (rest_bytes r)
            + length object_terminator = 321
        \<and> map_option (\<lambda>tail. get_slice tail 80 90) (pdf_buffer r) = Some ''0000000009''
    | _ \<Rightarrow> False)"
    using c2 b2 l2 two_section_tail by (simp add: r2)
  from one two show ?thesis by (rule conjI)
qed

end
